theory Spec2Isabelle
  imports
    Main
    "HOL-Library.AList"
    "HOL-Library.Char_ord"
    "HOL-Library.List_Lexorder"
    "HOL-Library.Product_Lexorder"
    "HOL-Library.Sublist"
    "HOL-Library.Multiset"
begin

section \<open>The in-memory Node Registry of \<open>registry.py\<close>\<close>

text \<open>
  A Python \<open>str\<close> is modelled as a HOL \<open>string\<close>: a list of characters, each standing
  for one code point below 256, compared by code point (\<open>Char_ord\<close>) and, as a
  sequence, lexicographically with a proper prefix below its extensions
  (\<open>List_Lexorder\<close>), which is how Python compares strings. A Python tuple of two
  strings is a pair, compared lexicographically (\<open>Product_Lexorder\<close>). Python's
  \<open>int\<close> is \<open>int\<close>. Strings with code points from 256 on are outside the model; there
  \<open>\d\<close> matches further digits and \<open>str.lower\<close> is no longer a change of single
  characters.
\<close>

subsection \<open>Data of the external model package, as the registry uses it\<close>

datatype NodeKind = atomic | composite

text \<open>
  The registry reads three fields of a \<open>NodeType\<close>; every other field travels in
  \<open>rest\<close>, which the registry never inspects.
\<close>

record 'p NodeType =
  node_type_id :: string
  version :: string
  kind :: NodeKind
  rest :: 'p

record ArpServerError =
  code :: string
  message :: string
  status_code :: nat

text \<open>
  What an operation can raise: an \<open>ArpServerError\<close>, which the server turns into a
  response of its status, or the \<open>ValueError\<close> of \<open>int()\<close>, which nothing in the registry
  catches.
\<close>

datatype raised = ArpError ArpServerError | ValueError

text \<open>
  \<open>Status\<close> is an enumeration of the model package, which is not among the source
  files; of its members the registry uses \<open>ok\<close> only.
\<close>

datatype Status = ok | degraded | down

record Health =
  status :: Status
  time :: nat

record VersionInfo =
  service_name :: string
  service_version :: string
  supported_api_versions :: "string list"

subsection \<open>The registry object\<close>

text \<open>
  \<open>self._store\<close> is a \<open>dict\<close>, which keeps its keys in insertion order: an
  association list, read by \<open>map_of\<close> and written by \<open>AList.update\<close> (in place when the
  key is there, at the end when it is new). \<open>self._versions\<close> is a
  \<open>defaultdict(list)\<close>, whose order of keys is never read: a map.
\<close>

record 'p NodeRegistry =
  self_service_name :: string
  self_service_version :: string
  self_store :: "((string \<times> string) \<times> 'p NodeType) list"
  self_versions :: "string \<rightharpoonup> string list"

definition init :: "string \<Rightarrow> string \<Rightarrow> 'p NodeRegistry" where
  "init name ver =
     \<lparr>self_service_name = name, self_service_version = ver,
      self_store = [], self_versions = Map.empty\<rparr>"

text \<open>\<open>self._versions.get(node_type_id) or []\<close>, and what \<open>self._versions[node_type_id]\<close>
  holds once the \<open>defaultdict\<close> has made the missing entry.\<close>

definition versions_of :: "'p NodeRegistry \<Rightarrow> string \<Rightarrow> string list" where
  "versions_of self i = (case self_versions self i of None \<Rightarrow> [] | Some vs \<Rightarrow> vs)"

text \<open>The two f-strings that name a node type in an error message.\<close>

definition quoted :: "string \<Rightarrow> string" where
  "quoted s = ''NodeType '' @ [CHR 0x27] @ s @ [CHR 0x27]"

definition at_version :: "string \<Rightarrow> string \<Rightarrow> string" where
  "at_version i v = i @ ''@'' @ v"

definition already_exists :: "string \<Rightarrow> string \<Rightarrow> ArpServerError" where
  "already_exists i v =
     \<lparr>code = ''node_type_already_exists'',
      message = quoted (at_version i v) @ '' already exists'',
      status_code = 409\<rparr>"

definition not_found :: "string \<Rightarrow> ArpServerError" where
  "not_found what =
     \<lparr>code = ''node_type_not_found'',
      message = quoted what @ '' not found'',
      status_code = 404\<rparr>"

subsection \<open>health and version\<close>

text \<open>
  Modelled from the spec: \<open>utils.now\<close>, which \<open>health\<close> calls, is not among the source
  files; the spec says that health returns the current timestamp. The reading of the
  clock at the call is the argument \<open>clock\<close>.
\<close>

definition now :: "nat \<Rightarrow> nat" where
  "now clock = clock"

definition health :: "'p NodeRegistry \<Rightarrow> nat \<Rightarrow> Health \<times> 'p NodeRegistry" where
  "health self clock = (\<lparr>status = ok, time = now clock\<rparr>, self)"

definition registry_version :: "'p NodeRegistry \<Rightarrow> VersionInfo \<times> 'p NodeRegistry" where
  "registry_version self =
     (\<lparr>service_name = self_service_name self,
       service_version = self_service_version self,
       supported_api_versions = [''v1'']\<rparr>, self)"

subsection \<open>publish\_node\_type\<close>

definition publish_node_type ::
  "'p NodeRegistry \<Rightarrow> 'p NodeType \<Rightarrow> (ArpServerError + 'p NodeType) \<times> 'p NodeRegistry" where
  "publish_node_type self node_type =
     (let key = (node_type_id node_type, version node_type) in
      if map_of (self_store self) key \<noteq> None
      then (Inl (already_exists (node_type_id node_type) (version node_type)), self)
      else (Inr node_type,
            self\<lparr>self_store := AList.update key node_type (self_store self),
                 self_versions := (self_versions self)
                   (node_type_id node_type \<mapsto>
                      versions_of self (node_type_id node_type) @ [version node_type])\<rparr>))"

subsection \<open>The semantic-version pattern and its sort key\<close>

text \<open>
  \<open>_SEMVER_RE\<close> is
  \<^verbatim>\<open>^v?(0|[1-9]\d*)\.(0|[1-9]\d*)\.(0|[1-9]\d*)(?:-([0-9A-Za-z.-]+))?(?:\+[0-9A-Za-z.-]+)?$\<close>.
  Each of its pieces can match its input in one way only: a number is followed by a
  dot, a hyphen, a plus or the end, none of which is a digit, so \<open>\d*\<close> takes the whole
  run of digits; the prerelease and the build are followed by a plus or the end, none of
  which is in their character class, so each takes the whole run of its characters; and
  where an optional group cannot match, what it would have started with (a hyphen, a
  plus) matches nothing that follows. The functions below read the string left to right
  accordingly. Among the code points below 256, \<open>\d\<close> matches \<open>0\<close> to \<open>9\<close> only.
\<close>

definition is_digit :: "char \<Rightarrow> bool" where
  "is_digit c = (CHR ''0'' \<le> c \<and> c \<le> CHR ''9'')"

definition is_alpha :: "char \<Rightarrow> bool" where
  "is_alpha c = ((CHR ''A'' \<le> c \<and> c \<le> CHR ''Z'') \<or> (CHR ''a'' \<le> c \<and> c \<le> CHR ''z''))"

text \<open>The class \<open>[0-9A-Za-z.-]\<close>.\<close>

definition is_ident_char :: "char \<Rightarrow> bool" where
  "is_ident_char c = (is_digit c \<or> is_alpha c \<or> c = CHR ''.'' \<or> c = CHR ''-'')"

text \<open>\<open>v?\<close>\<close>

fun match_v :: "string \<Rightarrow> string" where
  "match_v [] = []"
| "match_v (c # cs) = (if c = CHR ''v'' then cs else c # cs)"

text \<open>\<open>(0|[1-9]\d*)\<close>: the text of the group and what follows it.\<close>

fun match_number :: "string \<Rightarrow> (string \<times> string) option" where
  "match_number [] = None"
| "match_number (c # cs) =
     (if c = CHR ''0'' then Some ([c], cs)
      else if is_digit c then Some (c # takeWhile is_digit cs, dropWhile is_digit cs)
      else None)"

text \<open>\<open>\.\<close>\<close>

fun match_dot :: "string \<Rightarrow> string option" where
  "match_dot [] = None"
| "match_dot (c # cs) = (if c = CHR ''.'' then Some cs else None)"

text \<open>\<open>(?:-([0-9A-Za-z.-]+))?\<close>: group 4, \<open>None\<close> when the group took no part, and what
  follows.\<close>

fun match_prerelease :: "string \<Rightarrow> string option \<times> string" where
  "match_prerelease [] = (None, [])"
| "match_prerelease (c # cs) =
     (if c = CHR ''-'' \<and> takeWhile is_ident_char cs \<noteq> []
      then (Some (takeWhile is_ident_char cs), dropWhile is_ident_char cs)
      else (None, c # cs))"

text \<open>\<open>(?:\+[0-9A-Za-z.-]+)?\<close>: what follows.\<close>

fun match_build :: "string \<Rightarrow> string" where
  "match_build [] = []"
| "match_build (c # cs) =
     (if c = CHR ''+'' \<and> takeWhile is_ident_char cs \<noteq> []
      then dropWhile is_ident_char cs
      else c # cs)"

text \<open>\<open>$\<close>, without \<open>re.MULTILINE\<close>: at the end of the string, and also just before a
  newline that is the string's last character.\<close>

definition match_end :: "string \<Rightarrow> bool" where
  "match_end s = (s = [] \<or> s = [CHR 0x0A])"

text \<open>\<open>_SEMVER_RE.match(v)\<close>: groups 1 to 4 of the match.\<close>

definition semver_match :: "string \<Rightarrow> (string \<times> string \<times> string \<times> string option) option" where
  "semver_match v =
     (case match_number (match_v v) of None \<Rightarrow> None
      | Some (major, s1) \<Rightarrow>
     (case match_dot s1 of None \<Rightarrow> None
      | Some s2 \<Rightarrow>
     (case match_number s2 of None \<Rightarrow> None
      | Some (minor, s3) \<Rightarrow>
     (case match_dot s3 of None \<Rightarrow> None
      | Some s4 \<Rightarrow>
     (case match_number s4 of None \<Rightarrow> None
      | Some (patch, s5) \<Rightarrow>
     (case match_prerelease s5 of (prerelease, s6) \<Rightarrow>
        if match_end (match_build s6) then Some (major, minor, patch, prerelease)
        else None))))))"

text \<open>
  \<open>int(s)\<close> on a run of the digits \<open>0\<close> to \<open>9\<close>: the number the digits write, unless
  there are more of them than \<open>sys.int_info.default_max_str_digits\<close>, the limit of the
  interpreter, which the registry does not change; then \<open>int\<close> raises \<open>ValueError\<close>.
  Leading zeros count.
\<close>

definition digit_value :: "char \<Rightarrow> int" where
  "digit_value c = int (of_char c) - 48"

definition int_of_digits :: "string \<Rightarrow> int" where
  "int_of_digits s = foldl (\<lambda>n c. 10 * n + digit_value c) 0 s"

definition max_str_digits :: nat where
  "max_str_digits = 4300"

definition py_int :: "string \<Rightarrow> raised + int" where
  "py_int s = (if length s > max_str_digits then Inl ValueError else Inr (int_of_digits s))"

text \<open>\<open>s.split(d)\<close>: the pieces between the separators, empty pieces included.\<close>

fun split_on :: "char \<Rightarrow> string \<Rightarrow> string list" where
  "split_on d [] = [[]]"
| "split_on d (c # cs) =
     (if c = d then [] # split_on d cs
      else (c # hd (split_on d cs)) # tl (split_on d cs))"

text \<open>
  \<open>part.isdigit()\<close>. A part is a piece of group 4, so its characters are in
  \<open>[0-9A-Za-z.-]\<close>, where the digits of \<open>str.isdigit\<close> are \<open>0\<close> to \<open>9\<close>.
\<close>

definition isdigit :: "string \<Rightarrow> bool" where
  "isdigit s = (s \<noteq> [] \<and> list_all is_digit s)"

text \<open>
  A prerelease part of the key is the pair \<open>(0, int(part))\<close> or \<open>(1, part)\<close>: a tag and
  a value whose type the tag decides.
\<close>

datatype prepart = Numeric int | Text string

definition tag :: "prepart \<Rightarrow> int" where
  "tag p = (case p of Numeric _ \<Rightarrow> 0 | Text _ \<Rightarrow> 1)"

type_synonym key = "int \<times> int \<times> int \<times> int \<times> prepart list"

text \<open>Lines 168 to 173: the loop over the parts of the prerelease, \<open>parts\<close> being the
  list built so far.\<close>

fun parts_loop :: "prepart list \<Rightarrow> string list \<Rightarrow> raised + prepart list" where
  "parts_loop parts [] = Inr parts"
| "parts_loop parts (part # later) =
     (if isdigit part
      then (case py_int part of
              Inl e \<Rightarrow> Inl e
            | Inr n \<Rightarrow> parts_loop (parts @ [Numeric n]) later)
      else parts_loop (parts @ [Text part]) later)"

text \<open>\<open>_semver_key\<close>: \<open>None\<close>, a key, or the \<open>ValueError\<close> of the first \<open>int()\<close> that
  raises.\<close>

definition semver_key :: "string \<Rightarrow> raised + key option" where
  "semver_key v =
     (case semver_match v of
        None \<Rightarrow> Inr None
      | Some (major, minor, patch, prerelease) \<Rightarrow>
          (case py_int major of Inl e \<Rightarrow> Inl e | Inr ma \<Rightarrow>
          (case py_int minor of Inl e \<Rightarrow> Inl e | Inr mi \<Rightarrow>
          (case py_int patch of Inl e \<Rightarrow> Inl e | Inr pa \<Rightarrow>
          (case prerelease of
             None \<Rightarrow> Inr (Some (ma, mi, pa, 1, []))
           | Some pre \<Rightarrow>
               (case parts_loop [] (split_on (CHR ''.'') pre) of
                  Inl e \<Rightarrow> Inl e
                | Inr parts \<Rightarrow> Inr (Some (ma, mi, pa, 0, parts))))))))"

subsection \<open>Python's comparison of keys\<close>

text \<open>
  \<open>a > b\<close> on tuples looks for the first position where the two differ and compares
  the elements there; when one tuple is a prefix of the other, the longer is the
  greater. Two prerelease parts that differ in the tag are decided by the tag, so an
  integer is never compared with a string.
\<close>

fun part_gt :: "prepart \<Rightarrow> prepart \<Rightarrow> bool" where
  "part_gt (Numeric a) (Numeric b) = (a > b)"
| "part_gt (Text a) (Text b) = (a > b)"
| "part_gt a b = (tag a > tag b)"

fun parts_gt :: "prepart list \<Rightarrow> prepart list \<Rightarrow> bool" where
  "parts_gt [] ys = False"
| "parts_gt (x # xs) [] = True"
| "parts_gt (x # xs) (y # ys) = (if x \<noteq> y then part_gt x y else parts_gt xs ys)"

fun key_gt :: "key \<Rightarrow> key \<Rightarrow> bool" where
  "key_gt (a1, b1, c1, r1, p1) (a2, b2, c2, r2, p2) =
     (if a1 \<noteq> a2 then a1 > a2
      else if b1 \<noteq> b2 then b1 > b2
      else if c1 \<noteq> c2 then c1 > c2
      else if r1 \<noteq> r2 then r1 > r2
      else parts_gt p1 p2)"

text \<open>
  \<open>max(items, key=...)\<close> keeps the first item and replaces it by a later one only when
  the later one's key is greater.
\<close>

fun max_loop :: "string \<times> key \<Rightarrow> (string \<times> key) list \<Rightarrow> string \<times> key" where
  "max_loop m [] = m"
| "max_loop m (x # xs) = max_loop (if key_gt (snd x) (snd m) then x else m) xs"

subsection \<open>get\_node\_type\<close>

text \<open>Line 117: every version with what \<open>_semver_key\<close> returns for it, in the order of
  the list; the first call that raises ends the comprehension.\<close>

fun keys_loop :: "string list \<Rightarrow> raised + (string \<times> key option) list" where
  "keys_loop [] = Inr []"
| "keys_loop (v # versions) =
     (case semver_key v of
        Inl e \<Rightarrow> Inl e
      | Inr k \<Rightarrow>
          (case keys_loop versions of
             Inl e \<Rightarrow> Inl e
           | Inr later \<Rightarrow> Inr ((v, k) # later)))"

text \<open>Line 118: those with a key.\<close>

definition semver_versions :: "string list \<Rightarrow> raised + (string \<times> key) list" where
  "semver_versions versions =
     (case keys_loop versions of
        Inl e \<Rightarrow> Inl e
      | Inr semver_versions \<Rightarrow> Inr [(v, k). (v, Some k) \<leftarrow> semver_versions])"

text \<open>Lines 119 to 122: the version that stands for an omitted one, among a non-empty
  list of versions.\<close>

definition latest :: "string list \<Rightarrow> raised + string" where
  "latest versions =
     (case semver_versions versions of
        Inl e \<Rightarrow> Inl e
      | Inr (x # xs) \<Rightarrow> Inr (fst (max_loop x xs))
      | Inr [] \<Rightarrow> Inr (last (sort versions)))"

text \<open>Lines 123 to 127.\<close>

definition lookup ::
  "'p NodeRegistry \<Rightarrow> string \<Rightarrow> string \<Rightarrow> (raised + 'p NodeType) \<times> 'p NodeRegistry" where
  "lookup self i v =
     (case map_of (self_store self) (i, v) of
        None \<Rightarrow> (Inl (ArpError (not_found (at_version i v))), self)
      | Some node_type \<Rightarrow> (Inr node_type, self))"

definition get_node_type ::
  "'p NodeRegistry \<Rightarrow> string \<Rightarrow> string option \<Rightarrow>
     (raised + 'p NodeType) \<times> 'p NodeRegistry" where
  "get_node_type self i version_opt =
     (case version_opt of
        None \<Rightarrow>
          (let versions = versions_of self i in
           if versions = [] then (Inl (ArpError (not_found i)), self)
           else (case latest versions of
                   Inl e \<Rightarrow> (Inl e, self)
                 | Inr v \<Rightarrow> lookup self i v))
      | Some v \<Rightarrow> lookup self i v)"

subsection \<open>list\_node\_types\<close>

text \<open>
  \<open>str.strip()\<close> removes the white space at both ends; below 256 the white-space
  code points are 9 to 13, 28 to 32, 133 and 160. \<open>str.lower()\<close> maps \<open>A\<close> to \<open>Z\<close> and
  the capital letters 192 to 222 (but 215, the multiplication sign) to the code point
  32 above, and leaves every other code point below 256 as it is.
\<close>

definition isspace :: "char \<Rightarrow> bool" where
  "isspace c = (let n = (of_char c :: nat) in
     (9 \<le> n \<and> n \<le> 13) \<or> (28 \<le> n \<and> n \<le> 32) \<or> n = 133 \<or> n = 160)"

definition strip :: "string \<Rightarrow> string" where
  "strip s = rev (dropWhile isspace (rev (dropWhile isspace s)))"

definition lower_char :: "char \<Rightarrow> char" where
  "lower_char c = (let n = (of_char c :: nat) in
     if (65 \<le> n \<and> n \<le> 90) \<or> (192 \<le> n \<and> n \<le> 222 \<and> n \<noteq> 215)
     then char_of (n + 32) else c)"

definition lower :: "string \<Rightarrow> string" where
  "lower s = map lower_char s"

text \<open>\<open>q in s\<close> on strings: \<open>q\<close> starts at some position of \<open>s\<close>.\<close>

fun contains :: "string \<Rightarrow> string \<Rightarrow> bool" where
  "contains q [] = (q = [])"
| "contains q (c # cs) = (prefix q (c # cs) \<or> contains q cs)"

text \<open>The loop over \<open>self._store.values()\<close>, \<open>out\<close> being the list built so far.\<close>

fun list_loop ::
  "string \<Rightarrow> NodeKind option \<Rightarrow> 'p NodeType list \<Rightarrow> 'p NodeType list \<Rightarrow> 'p NodeType list" where
  "list_loop q k out [] = out"
| "list_loop q k out (node_type # values) =
     (if q \<noteq> [] \<and> \<not> contains q (lower (node_type_id node_type))
      then list_loop q k out values
      else if k \<noteq> None \<and> Some (kind node_type) \<noteq> k
      then list_loop q k out values
      else list_loop q k (out @ [node_type]) values)"

definition list_node_types ::
  "'p NodeRegistry \<Rightarrow> string option \<Rightarrow> NodeKind option \<Rightarrow> 'p NodeType list \<times> 'p NodeRegistry" where
  "list_node_types self q_opt k =
     (let q = lower (strip (case q_opt of None \<Rightarrow> [] | Some s \<Rightarrow> s));
          out = list_loop q k [] (map snd (self_store self))
      in (sort_key (\<lambda>nt. (node_type_id nt, version nt)) out, self))"

subsection \<open>Requests, one after another\<close>

text \<open>
  The server hands the registry one request at a time; each of the five operations
  returns its result and the registry as it leaves it.
\<close>

datatype 'p request =
    HealthRequest nat
  | VersionRequest
  | PublishRequest "'p NodeType"
  | GetRequest string "string option"
  | ListRequest "string option" "NodeKind option"

fun step :: "'p NodeRegistry \<Rightarrow> 'p request \<Rightarrow> 'p NodeRegistry" where
  "step self (HealthRequest clock) = snd (health self clock)"
| "step self VersionRequest = snd (registry_version self)"
| "step self (PublishRequest node_type) = snd (publish_node_type self node_type)"
| "step self (GetRequest i v) = snd (get_node_type self i v)"
| "step self (ListRequest q k) = snd (list_node_types self q k)"

definition run :: "'p NodeRegistry \<Rightarrow> 'p request list \<Rightarrow> 'p NodeRegistry" where
  "run self requests = foldl step self requests"

fun is_read :: "'p request \<Rightarrow> bool" where
  "is_read (PublishRequest _) = False"
| "is_read _ = True"

subsection \<open>What the specification says, in its own terms\<close>

text \<open>Every version listed for an id has its entry in the store.\<close>

definition registry_inv :: "'p NodeRegistry \<Rightarrow> bool" where
  "registry_inv self =
     (\<forall>i. \<forall>v \<in> set (versions_of self i). map_of (self_store self) (i, v) \<noteq> None)"

text \<open>
  What list returns for a query and a kind, in terms that do not pass through the
  code's \<open>strip\<close> and \<open>lower\<close>. A blank is a white-space character; a capital is a
  letter with a small form, which stands 32 code points above it; two characters are
  the same letter when they are equal or one is the small form of the other. The query
  trimmed is what is left of it between the blanks at its ends. The query counts only
  when it is not all blanks, and then asks for a piece of the id that has the letters
  of the trimmed query, one by one; the kind asks for equality.
\<close>

definition blank :: "char \<Rightarrow> bool" where
  "blank c = (of_char c \<in> {9, 10, 11, 12, 13, 28, 29, 30, 31, 32, 133, 160 :: nat})"

definition capital :: "char \<Rightarrow> bool" where
  "capital c = (of_char c \<in> {65..90} \<union> {192..214} \<union> {216..222 :: nat})"

definition same_letter :: "char \<Rightarrow> char \<Rightarrow> bool" where
  "same_letter a b =
     (a = b \<or> (capital a \<and> of_char b = of_char a + (32 :: nat)) \<or>
      (capital b \<and> of_char a = of_char b + (32 :: nat)))"

definition trimmed :: "string \<Rightarrow> string \<Rightarrow> bool" where
  "trimmed q t =
     (\<exists>l r. q = l @ t @ r \<and> list_all blank l \<and> list_all blank r \<and>
        (t = [] \<or> (\<not> blank (hd t) \<and> \<not> blank (last t))))"

definition matches :: "string option \<Rightarrow> NodeKind option \<Rightarrow> 'p NodeType \<Rightarrow> bool" where
  "matches q_opt k nt =
     ((case q_opt of
         None \<Rightarrow> True
       | Some q \<Rightarrow>
           list_all blank q \<or>
           (\<exists>t a u b. trimmed q t \<and> node_type_id nt = a @ u @ b \<and> list_all2 same_letter u t)) \<and>
      (case k of None \<Rightarrow> True | Some wanted \<Rightarrow> kind nt = wanted))"

text \<open>
  The form of a semantic version in the specification's words:
  \<open>[v]MAJOR.MINOR.PATCH[-PRERELEASE][+BUILD]\<close>, the three numbers without leading zeros
  (but \<open>0\<close> itself), the prerelease and the build made of identifiers of letters, digits
  and hyphens with dots between them. The string is cut at its first plus and then at
  the first hyphen before it, and what is left is cut at its dots.
\<close>

definition numeric_part :: "string \<Rightarrow> bool" where
  "numeric_part s = (s \<noteq> [] \<and> list_all is_digit s \<and> (s = ''0'' \<or> hd s \<noteq> CHR ''0''))"

definition identifier_ok :: "string \<Rightarrow> bool" where
  "identifier_ok s = list_all (\<lambda>c. is_digit c \<or> is_alpha c \<or> c = CHR ''-'') s"

definition identifiers :: "string \<Rightarrow> bool" where
  "identifiers s = (s \<noteq> [] \<and> list_all identifier_ok (split_on (CHR ''.'') s))"

fun cut :: "char \<Rightarrow> string \<Rightarrow> string \<times> string option" where
  "cut d [] = ([], None)"
| "cut d (c # cs) =
     (if c = d then ([], Some cs) else (c # fst (cut d cs), snd (cut d cs)))"

definition is_semantic_version :: "string \<Rightarrow> bool" where
  "is_semantic_version s =
     (let body = (case s of [] \<Rightarrow> [] | c # cs \<Rightarrow> if c = CHR ''v'' then cs else c # cs);
          (front, build) = cut (CHR ''+'') body;
          (core, prerelease) = cut (CHR ''-'') front
      in (case split_on (CHR ''.'') core of
            [major, minor, patch] \<Rightarrow> numeric_part major \<and> numeric_part minor \<and> numeric_part patch
          | _ \<Rightarrow> False) \<and>
         (case prerelease of None \<Rightarrow> True | Some p \<Rightarrow> identifiers p) \<and>
         (case build of None \<Rightarrow> True | Some b \<Rightarrow> identifiers b))"

subsection \<open>Devices of the proofs\<close>

text \<open>
  The key, the keyed versions and the latest version as they are when no \<open>int()\<close>
  raises: \<open>semver_key\<close>, \<open>semver_versions\<close> and \<open>latest\<close> return these or raise.
\<close>

definition raises :: "string \<Rightarrow> bool" where
  "raises v = (semver_key v = Inl ValueError)"

definition parts_of :: "string \<Rightarrow> prepart list" where
  "parts_of prerelease =
     map (\<lambda>part. if isdigit part then Numeric (int_of_digits part) else Text part)
       (split_on (CHR ''.'') prerelease)"

definition key_of :: "string \<Rightarrow> key option" where
  "key_of v =
     (case semver_match v of None \<Rightarrow> None
      | Some (major, minor, patch, prerelease) \<Rightarrow>
          (case prerelease of
             None \<Rightarrow> Some (int_of_digits major, int_of_digits minor, int_of_digits patch, 1, [])
           | Some pre \<Rightarrow>
               Some (int_of_digits major, int_of_digits minor, int_of_digits patch, 0,
                     parts_of pre)))"

definition keyed :: "string list \<Rightarrow> (string \<times> key) list" where
  "keyed versions = [(v, k). (v, Some k) \<leftarrow> map (\<lambda>v. (v, key_of v)) versions]"

definition latest_of :: "string list \<Rightarrow> string" where
  "latest_of versions =
     (case keyed versions of
        x # xs \<Rightarrow> fst (max_loop x xs)
      | [] \<Rightarrow> last (sort versions))"

text \<open>
  A key's rank is the key itself, written in a type that Isabelle orders
  lexicographically; \<open>key_gt\<close> is proved to be that order, which makes it a strict
  linear order. \<open>first_max ys r\<close>: \<open>r\<close> stands in \<open>ys\<close> after items of smaller keys only
  and before none of a greater key.
\<close>

definition part_rank :: "prepart \<Rightarrow> int \<times> int \<times> string" where
  "part_rank p = (case p of Numeric n \<Rightarrow> (0, n, []) | Text s \<Rightarrow> (1, 0, s))"

definition rank :: "key \<Rightarrow> int \<times> int \<times> int \<times> int \<times> (int \<times> int \<times> string) list" where
  "rank k = (case k of (a, b, c, r, p) \<Rightarrow> (a, b, c, r, map part_rank p))"

definition first_max :: "(string \<times> key) list \<Rightarrow> string \<times> key \<Rightarrow> bool" where
  "first_max ys r =
     (\<exists>pre post. ys = pre @ r # post \<and>
        (\<forall>x \<in> set pre. key_gt (snd r) (snd x)) \<and>
        (\<forall>x \<in> set post. \<not> key_gt (snd x) (snd r)))"

text \<open>
  \<open>shape body\<close>: the string is three numbers with dots between them, then a hyphen and
  a run of the prerelease's characters or nothing, then a plus and a run of the build's
  characters or nothing. Both the pattern and the specification's form are compared
  with it.
\<close>

fun opt :: "char \<Rightarrow> string option \<Rightarrow> string" where
  "opt c None = []"
| "opt c (Some x) = c # x"

definition run_ok :: "string option \<Rightarrow> bool" where
  "run_ok x = (case x of None \<Rightarrow> True | Some p \<Rightarrow> p \<noteq> [] \<and> list_all is_ident_char p)"

definition shape :: "string \<Rightarrow> bool" where
  "shape body =
     (\<exists>ma mi pa pre build.
        body = ma @ CHR ''.'' # mi @ CHR ''.'' # pa @ opt (CHR ''-'') pre @ opt (CHR ''+'') build \<and>
        numeric_part ma \<and> numeric_part mi \<and> numeric_part pa \<and> run_ok pre \<and> run_ok build)"

text \<open>\<open>keep q k\<close>: the loop of list appends the NodeType.\<close>

definition keep :: "string \<Rightarrow> NodeKind option \<Rightarrow> 'p NodeType \<Rightarrow> bool" where
  "keep q k nt =
     (\<not> (q \<noteq> [] \<and> \<not> contains q (lower (node_type_id nt))) \<and>
      \<not> (k \<noteq> None \<and> Some (kind nt) \<noteq> k))"

subsection \<open>A registry to try the theorems on\<close>

definition echo :: "string \<Rightarrow> unit NodeType" where
  "echo v = \<lparr>node_type_id = ''atomic.echo'', version = v, kind = atomic, rest = ()\<rparr>"

definition fresh :: "unit NodeRegistry" where
  "fresh = init ''arp-template-node-registry'' ''0.1.0''"

text \<open>One digit more than \<open>int()\<close> converts.\<close>

definition long_digits :: "char \<Rightarrow> string" where
  "long_digits c = replicate (Suc max_str_digits) c"

definition foo_bar :: "unit NodeType" where
  "foo_bar = \<lparr>node_type_id = ''foo.bar'', version = ''1.0.0'', kind = atomic, rest = ()\<rparr>"

definition foo_baz :: "unit NodeType" where
  "foo_baz = \<lparr>node_type_id = ''foo.baz'', version = ''1.0.0'', kind = composite, rest = ()\<rparr>"

section \<open>The operations and the state\<close>

lemma snd_lookup: "snd (lookup self i v) = self"
  by (simp add: lookup_def split: option.split)

lemma snd_get_node_type: "snd (get_node_type self i vo) = self"
  by (simp add: get_node_type_def Let_def snd_lookup split: option.split sum.split)

lemma snd_list_node_types: "snd (list_node_types self q k) = self"
  by (simp add: list_node_types_def Let_def)

lemma snd_health: "snd (health self clock) = self"
  by (simp add: health_def)

lemma snd_registry_version: "snd (registry_version self) = self"
  by (simp add: registry_version_def)

lemma step_read: "is_read r \<Longrightarrow> step self r = self"
  by (cases r) (simp_all add: snd_get_node_type snd_list_node_types snd_health snd_registry_version)

lemma run_reads: "list_all is_read rs \<Longrightarrow> run self rs = self"
  unfolding run_def by (induction rs arbitrary: self) (simp_all add: step_read)

lemma inv_init: "registry_inv (init n v)"
  by (simp add: registry_inv_def init_def versions_of_def)

lemma publish_conflict_eq:
  "map_of (self_store self) (node_type_id nt, version nt) \<noteq> None \<Longrightarrow>
   publish_node_type self nt = (Inl (already_exists (node_type_id nt) (version nt)), self)"
  by (simp add: publish_node_type_def)

lemma publish_fresh_eq:
  "map_of (self_store self) (node_type_id nt, version nt) = None \<Longrightarrow>
   publish_node_type self nt =
     (Inr nt,
      self\<lparr>self_store := AList.update (node_type_id nt, version nt) nt (self_store self),
           self_versions := (self_versions self)
             (node_type_id nt \<mapsto> versions_of self (node_type_id nt) @ [version nt])\<rparr>)"
  by (simp add: publish_node_type_def)

lemma publish_fresh_store:
  "map_of (self_store self) (node_type_id nt, version nt) = None \<Longrightarrow>
   map_of (self_store (snd (publish_node_type self nt))) =
     (map_of (self_store self))((node_type_id nt, version nt) \<mapsto> nt)"
  by (simp add: publish_fresh_eq update_conv')

lemma publish_fresh_versions:
  "map_of (self_store self) (node_type_id nt, version nt) = None \<Longrightarrow>
   versions_of (snd (publish_node_type self nt)) i =
     (if i = node_type_id nt then versions_of self i @ [version nt] else versions_of self i)"
  by (simp add: publish_fresh_eq versions_of_def)

lemma inv_publish:
  assumes "registry_inv self"
  shows "registry_inv (snd (publish_node_type self nt))"
proof (cases "map_of (self_store self) (node_type_id nt, version nt) = None")
  case False
  then show ?thesis using assms by (simp add: publish_conflict_eq)
next
  case True
  show ?thesis
    unfolding registry_inv_def
  proof (intro allI ballI)
    fix i v
    assume v: "v \<in> set (versions_of (snd (publish_node_type self nt)) i)"
    show "map_of (self_store (snd (publish_node_type self nt))) (i, v) \<noteq> None"
    proof (cases "(i, v) = (node_type_id nt, version nt)")
      case True
      then show ?thesis by (simp add: publish_fresh_store [OF \<open>map_of _ _ = None\<close>])
    next
      case False
      with v have "v \<in> set (versions_of self i)"
        by (auto simp: publish_fresh_versions [OF True] split: if_splits)
      with assms have "map_of (self_store self) (i, v) \<noteq> None"
        by (simp add: registry_inv_def)
      with False show ?thesis by (simp add: publish_fresh_store [OF True])
    qed
  qed
qed

lemma inv_step: "registry_inv self \<Longrightarrow> registry_inv (step self r)"
  by (cases r) (simp_all add: inv_publish snd_get_node_type snd_list_node_types snd_health snd_registry_version)

lemma inv_run: "registry_inv self \<Longrightarrow> registry_inv (run self rs)"
  unfolding run_def by (induction rs arbitrary: self) (simp_all add: inv_step)

lemma stored_publish:
  "map_of (self_store self) key = Some nt \<Longrightarrow>
   map_of (self_store (snd (publish_node_type self nt'))) key = Some nt"
  by (cases "map_of (self_store self) (node_type_id nt', version nt') = None")
     (auto simp: publish_conflict_eq publish_fresh_store)

lemma stored_step:
  "map_of (self_store self) key = Some nt \<Longrightarrow> map_of (self_store (step self r)) key = Some nt"
  by (cases r) (simp_all add: stored_publish snd_get_node_type snd_list_node_types snd_health snd_registry_version)

lemma stored_run:
  "map_of (self_store self) key = Some nt \<Longrightarrow> map_of (self_store (run self rs)) key = Some nt"
  unfolding run_def by (induction rs arbitrary: self) (simp_all add: stored_step)

section \<open>Publishing a key that is already there\<close>

text \<open>
  C2. Publishing a NodeType whose key \<open>(node_type_id, version)\<close> is in the store fails
  with the error of code \<open>node_type_already_exists\<close> and status 409, whose message
  names \<open>id@version\<close>, and the registry it leaves is the registry it found: the
  store and the version index are unchanged.
\<close>

theorem publish_existing_key_fails:
  assumes "map_of (self_store self) (node_type_id nt, version nt) \<noteq> None"
  shows "publish_node_type self nt =
     (Inl \<lparr>code = ''node_type_already_exists'',
           message = ''NodeType '' @ [CHR 0x27] @ node_type_id nt @ ''@'' @ version nt
                       @ [CHR 0x27] @ '' already exists'',
           status_code = 409\<rparr>, self)"
  using assms by (simp add: publish_conflict_eq already_exists_def quoted_def at_version_def)

lemma run_fresh_1: "run fresh [PublishRequest (echo v)] =
  \<lparr>self_service_name = ''arp-template-node-registry'', self_service_version = ''0.1.0'',
   self_store = [((''atomic.echo'', v), echo v)],
   self_versions = [''atomic.echo'' \<mapsto> [v]]\<rparr>"
  by (simp add: run_def fresh_def init_def publish_node_type_def echo_def versions_of_def)

theorem publish_existing_key_fails_witness:
  "publish_node_type (run fresh [PublishRequest (echo ''1.0.0'')]) (echo ''1.0.0'') =
     (Inl \<lparr>code = ''node_type_already_exists'',
           message = ''NodeType '' @ [CHR 0x27] @ ''atomic.echo@1.0.0'' @ [CHR 0x27] @ '' already exists'',
           status_code = 409\<rparr>, run fresh [PublishRequest (echo ''1.0.0'')])"
  using publish_existing_key_fails [of "run fresh [PublishRequest (echo ''1.0.0'')]" "echo ''1.0.0''"]
  by (simp add: run_fresh_1) (simp add: echo_def)

section \<open>The latest version is a published one\<close>

lemma max_loop_in: "max_loop m xs \<in> set (m # xs)"
  by (induction xs arbitrary: m) (simp, force)

lemma keyed_set:
  "set (keyed vs) = {(v, k). v \<in> set vs \<and> key_of v = Some k}"
  unfolding keyed_def by (induction vs) (auto split: option.splits)

lemma latest_in: 
  assumes "vs \<noteq> []" shows "latest_of vs \<in> set vs"
proof (cases "keyed vs")
  case Nil
  have "last (sort vs) \<in> set (sort vs)"
    using assms by (intro last_in_set) (metis length_0_conv length_sort)
  with Nil show ?thesis by (simp add: latest_of_def)
next
  case (Cons x xs)
  have "max_loop x xs \<in> set (x # xs)" by (rule max_loop_in)
  also have "set (x # xs) = {(v, k). v \<in> set vs \<and> key_of v = Some k}"
    using keyed_set [of vs] Cons by simp
  finally have "fst (max_loop x xs) \<in> set vs" by auto
  with Cons show ?thesis by (simp add: latest_of_def)
qed

lemma publish_cases:
  "publish_node_type self nt = (r, self') \<Longrightarrow>
     (map_of (self_store self) (node_type_id nt, version nt) \<noteq> None \<and>
      r = Inl (already_exists (node_type_id nt) (version nt)) \<and> self' = self) \<or>
     (map_of (self_store self) (node_type_id nt, version nt) = None \<and>
      r = Inr nt \<and> self' = snd (publish_node_type self nt) \<and>
      self_store self' = AList.update (node_type_id nt, version nt) nt (self_store self) \<and>
      versions_of self' (node_type_id nt) = versions_of self (node_type_id nt) @ [version nt])"
  by (cases "map_of (self_store self) (node_type_id nt, version nt) = None")
     (auto simp: publish_conflict_eq publish_fresh_eq versions_of_def)

text \<open>What raises is \<open>ValueError\<close>, and what does not raise is the total reading.\<close>

lemma py_int_cases: "py_int s = Inl ValueError \<or> py_int s = Inr (int_of_digits s)"
  by (simp add: py_int_def)

lemma parts_loop_cases:
  "parts_loop parts ps = Inl ValueError \<or>
   parts_loop parts ps =
     Inr (parts @ map (\<lambda>part. if isdigit part then Numeric (int_of_digits part) else Text part) ps)"
proof (induction ps arbitrary: parts)
  case Nil
  show ?case by simp
next
  case (Cons part ps)
  show ?case
  proof (cases "isdigit part")
    case True
    from py_int_cases [of part] show ?thesis
    proof
      assume "py_int part = Inl ValueError"
      with True show ?thesis by simp
    next
      assume "py_int part = Inr (int_of_digits part)"
      with True Cons [of "parts @ [Numeric (int_of_digits part)]"] show ?thesis by auto
    qed
  next
    case False
    with Cons [of "parts @ [Text part]"] show ?thesis by auto
  qed
qed

lemma semver_key_cases: "semver_key v = Inl ValueError \<or> semver_key v = Inr (key_of v)"
proof (cases "semver_match v")
  case None
  then show ?thesis by (simp add: semver_key_def key_of_def)
next
  case (Some g)
  obtain major minor patch prerelease where g: "g = (major, minor, patch, prerelease)"
    by (cases g)
  show ?thesis
  proof (cases "py_int major = Inl ValueError \<or> py_int minor = Inl ValueError \<or>
                 py_int patch = Inl ValueError")
    case True
    with Some g py_int_cases [of major] py_int_cases [of minor] py_int_cases [of patch]
    show ?thesis by (auto simp: semver_key_def split: sum.splits)
  next
    case False
    with py_int_cases have n: "py_int major = Inr (int_of_digits major)"
      "py_int minor = Inr (int_of_digits minor)" "py_int patch = Inr (int_of_digits patch)"
      by blast+
    show ?thesis
    proof (cases prerelease)
      case None
      with Some g n show ?thesis by (simp add: semver_key_def key_of_def)
    next
      case (Some pre)
      from parts_loop_cases [of "[]" "split_on (CHR ''.'') pre"]
      show ?thesis
      proof
        assume "parts_loop [] (split_on (CHR ''.'') pre) = Inl ValueError"
        with \<open>semver_match v = Some g\<close> g n Some show ?thesis by (simp add: semver_key_def)
      next
        assume "parts_loop [] (split_on (CHR ''.'') pre) =
          Inr ([] @ map (\<lambda>part. if isdigit part then Numeric (int_of_digits part) else Text part)
                 (split_on (CHR ''.'') pre))"
        with \<open>semver_match v = Some g\<close> g n Some show ?thesis
          by (simp add: semver_key_def key_of_def parts_of_def)
      qed
    qed
  qed
qed

lemma semver_key_Inr: "semver_key v = Inr k \<Longrightarrow> k = key_of v"
  using semver_key_cases [of v] by auto

lemma not_raises: "\<not> raises v \<longleftrightarrow> semver_key v = Inr (key_of v)"
  using semver_key_cases [of v] by (auto simp: raises_def)

lemma keys_loop_eq:
  "keys_loop vs =
     (if \<exists>v \<in> set vs. raises v then Inl ValueError else Inr (map (\<lambda>v. (v, key_of v)) vs))"
proof (induction vs)
  case Nil
  show ?case by simp
next
  case (Cons v vs)
  show ?case
  proof (cases "raises v")
    case True
    then show ?thesis by (simp add: raises_def)
  next
    case False
    then have "semver_key v = Inr (key_of v)" by (simp add: not_raises)
    with False Cons show ?thesis by simp
  qed
qed

lemma semver_versions_eq:
  "semver_versions vs = (if \<exists>v \<in> set vs. raises v then Inl ValueError else Inr (keyed vs))"
  by (simp add: semver_versions_def keys_loop_eq keyed_def)

lemma latest_eq:
  "latest vs = (if \<exists>v \<in> set vs. raises v then Inl ValueError else Inr (latest_of vs))"
  by (simp add: latest_def semver_versions_eq latest_of_def split: list.split)

lemma get_latest:
  assumes "registry_inv self" and "versions_of self i \<noteq> []"
    and "\<forall>v \<in> set (versions_of self i). \<not> raises v"
  shows "\<exists>nt. map_of (self_store self) (i, latest_of (versions_of self i)) = Some nt \<and>
              get_node_type self i None = (Inr nt, self)"
proof -
  have "latest_of (versions_of self i) \<in> set (versions_of self i)"
    using assms(2) by (rule latest_in)
  with assms(1) obtain nt where "map_of (self_store self) (i, latest_of (versions_of self i)) = Some nt"
    unfolding registry_inv_def by blast
  then show ?thesis using assms(2,3) by (simp add: get_node_type_def lookup_def latest_eq)
qed

lemma get_raises:
  assumes "\<exists>v \<in> set (versions_of self i). raises v"
  shows "get_node_type self i None = (Inl ValueError, self)"
proof -
  from assms have "versions_of self i \<noteq> []" by auto
  with assms show ?thesis by (simp add: get_node_type_def latest_eq)
qed

lemma get_none_empty:
  "versions_of self i = [] \<Longrightarrow> get_node_type self i None = (Inl (ArpError (not_found i)), self)"
  by (simp add: get_node_type_def)

lemma get_some_absent:
  "map_of (self_store self) (i, v) = None \<Longrightarrow>
   get_node_type self i (Some v) = (Inl (ArpError (not_found (at_version i v))), self)"
  by (simp add: get_node_type_def lookup_def)

lemma get_some_present:
  "map_of (self_store self) (i, v) = Some nt \<Longrightarrow> get_node_type self i (Some v) = (Inr nt, self)"
  by (simp add: get_node_type_def lookup_def)

section \<open>The order of keys, and the maximum that \<open>max\<close> finds\<close>

lemma part_rank_inj: "part_rank a = part_rank b \<longleftrightarrow> a = b"
  by (cases a; cases b) (simp_all add: part_rank_def)

lemma part_gt_rank: "part_gt a b \<longleftrightarrow> part_rank b < part_rank a"
  by (cases a; cases b) (auto simp: part_rank_def tag_def)

lemma parts_gt_rank: "parts_gt xs ys \<longleftrightarrow> map part_rank ys < map part_rank xs"
proof (induction xs ys rule: parts_gt.induct)
  case (1 ys)
  then show ?case by simp
next
  case (2 x xs)
  then show ?case by simp
next
  case (3 x xs y ys)
  show ?case
  proof (cases "x = y")
    case True
    with 3 show ?thesis by simp
  next
    case False
    then have "part_rank x \<noteq> part_rank y" by (simp add: part_rank_inj)
    with False show ?thesis by (auto simp add: part_gt_rank)
  qed
qed

lemma map_part_rank_inj: "map part_rank xs = map part_rank ys \<longleftrightarrow> xs = ys"
  by (rule inj_map_eq_map) (simp add: inj_def part_rank_inj)

lemma rank_inj: "rank a = rank b \<longleftrightarrow> a = b"
  by (cases a; cases b) (simp add: rank_def map_part_rank_inj)

lemma key_gt_rank: "key_gt a b \<longleftrightarrow> rank b < rank a"
  by (cases a; cases b) (auto simp: rank_def parts_gt_rank)

lemma key_gt_total: "a \<noteq> b \<Longrightarrow> key_gt a b \<or> key_gt b a"
  using rank_inj [of a b] by (auto simp: key_gt_rank)

lemma first_maxI:
  "ys = pre @ r # post \<Longrightarrow> \<forall>x \<in> set pre. key_gt (snd r) (snd x) \<Longrightarrow>
   \<forall>x \<in> set post. \<not> key_gt (snd x) (snd r) \<Longrightarrow> first_max ys r"
  unfolding first_max_def by blast

lemma max_loop_split: "first_max (m # xs) (max_loop m xs)"
proof (induction xs arbitrary: m)
  case Nil
  show ?case by (rule first_maxI [of _ "[]" _ "[]"]) simp_all
next
  case (Cons x xs)
  show ?case
  proof (cases "key_gt (snd x) (snd m)")
    case True
    define r where "r = max_loop x xs"
    have res: "max_loop m (x # xs) = r" using True by (simp add: r_def)
    from Cons [of x] obtain pre post where
      s: "x # xs = pre @ r # post"
      and lt: "\<forall>y \<in> set pre. key_gt (snd r) (snd y)"
      and le: "\<forall>y \<in> set post. \<not> key_gt (snd y) (snd r)"
      unfolding first_max_def r_def by blast
    have "x \<in> set (x # xs)" by simp
    then have "x \<in> set pre \<or> x = r \<or> x \<in> set post" unfolding s by auto
    then have "rank (snd x) \<le> rank (snd r)"
      using lt le by (auto simp: key_gt_rank)
    with True have "key_gt (snd r) (snd m)"
      by (simp add: key_gt_rank)
    with lt have l: "\<forall>y \<in> set (m # pre). key_gt (snd r) (snd y)" by simp
    have d: "m # x # xs = (m # pre) @ r # post" using s by simp
    show ?thesis unfolding res by (rule first_maxI [OF d l le])
  next
    case False
    define r where "r = max_loop m xs"
    have res: "max_loop m (x # xs) = r" using False by (simp add: r_def)
    from Cons [of m] obtain pre post where
      s: "m # xs = pre @ r # post"
      and lt: "\<forall>y \<in> set pre. key_gt (snd r) (snd y)"
      and le: "\<forall>y \<in> set post. \<not> key_gt (snd y) (snd r)"
      unfolding first_max_def r_def by blast
    show ?thesis
    proof (cases pre)
      case Nil
      with s have e: "r = m" "post = xs" by simp_all
      have d: "m # x # xs = [] @ r # (x # post)" using e by simp
      have l: "\<forall>y \<in> set []. key_gt (snd r) (snd y)" by simp
      have g: "\<forall>y \<in> set (x # post). \<not> key_gt (snd y) (snd r)"
        using le False e by simp
      show ?thesis unfolding res by (rule first_maxI [OF d l g])
    next
      case (Cons p pre')
      with s have p: "p = m" and xs: "xs = pre' @ r # post" by simp_all
      from lt Cons p have "key_gt (snd r) (snd m)" by simp
      with False have "key_gt (snd r) (snd x)"
        by (simp add: key_gt_rank)
      with lt Cons p have l: "\<forall>y \<in> set (m # x # pre'). key_gt (snd r) (snd y)"
        by simp
      have d: "m # x # xs = (m # x # pre') @ r # post" using xs by simp
      show ?thesis unfolding res by (rule first_maxI [OF d l le])
    qed
  qed
qed

lemma keyed_Cons:
  "keyed (v # vs) =
     (case key_of v of None \<Rightarrow> keyed vs | Some k \<Rightarrow> (v, k) # keyed vs)"
  by (simp add: keyed_def split: option.split)

lemma keyed_Nil: "keyed [] = []"
  by (simp add: keyed_def)

lemma keyed_split:
  "keyed vs = pre @ (v, k) # post \<Longrightarrow>
   \<exists>vpre vpost. vs = vpre @ v # vpost \<and> key_of v = Some k \<and>
      keyed vpre = pre \<and> keyed vpost = post"
proof (induction vs arbitrary: pre)
  case Nil
  then show ?case by (simp add: keyed_Nil)
next
  case (Cons a vs)
  show ?case
  proof (cases "key_of a")
    case None
    with Cons.prems have "keyed vs = pre @ (v, k) # post"
      by (simp add: keyed_Cons)
    from Cons.IH [OF this] obtain vpre vpost where
      "vs = vpre @ v # vpost" "key_of v = Some k"
      "keyed vpre = pre" "keyed vpost = post" by blast
    then have "a # vs = (a # vpre) @ v # vpost \<and> key_of v = Some k \<and>
      keyed (a # vpre) = pre \<and> keyed vpost = post"
      using None by (simp add: keyed_Cons)
    then show ?thesis by blast
  next
    case (Some ka)
    with Cons.prems have e: "(a, ka) # keyed vs = pre @ (v, k) # post"
      by (simp add: keyed_Cons)
    show ?thesis
    proof (cases pre)
      case Nil
      with e have "a = v" "ka = k" "keyed vs = post" by simp_all
      then have "a # vs = [] @ v # vs \<and> key_of v = Some k \<and>
        keyed [] = pre \<and> keyed vs = post"
        using Some Nil by (simp add: keyed_Nil)
      then show ?thesis by blast
    next
      case (Cons p pre')
      with e have p: "p = (a, ka)" and "keyed vs = pre' @ (v, k) # post" by simp_all
      from Cons.IH [OF this(2)] obtain vpre vpost where
        "vs = vpre @ v # vpost" "key_of v = Some k"
        "keyed vpre = pre'" "keyed vpost = post" by blast
      then have "a # vs = (a # vpre) @ v # vpost \<and> key_of v = Some k \<and>
        keyed (a # vpre) = pre \<and> keyed vpost = post"
        using Some Cons p by (simp add: keyed_Cons)
      then show ?thesis by blast
    qed
  qed
qed

lemma latest_semver:
  assumes "keyed vs \<noteq> []"
  shows "\<exists>pre post k. vs = pre @ latest_of vs # post \<and> key_of (latest_of vs) = Some k \<and>
     (\<forall>w \<in> set pre. \<forall>k'. key_of w = Some k' \<longrightarrow> key_gt k k') \<and>
     (\<forall>w \<in> set post. \<forall>k'. key_of w = Some k' \<longrightarrow> \<not> key_gt k' k)"
proof -
  from assms obtain x xs where sv: "keyed vs = x # xs" by (cases "keyed vs") auto
  then have l: "latest_of vs = fst (max_loop x xs)" by (simp add: latest_of_def)
  obtain v k where m: "max_loop x xs = (v, k)" by (cases "max_loop x xs")
  from max_loop_split [of x xs] m obtain pre post where
    s: "x # xs = pre @ (v, k) # post"
    and lt: "\<forall>y \<in> set pre. key_gt k (snd y)"
    and le: "\<forall>y \<in> set post. \<not> key_gt (snd y) k"
    unfolding first_max_def by auto
  from keyed_split [of vs pre v k post] sv s obtain vpre vpost where
    vs: "vs = vpre @ v # vpost" and k: "key_of v = Some k"
    and pre: "keyed vpre = pre" and post: "keyed vpost = post" by auto
  have "\<forall>w \<in> set vpre. \<forall>k'. key_of w = Some k' \<longrightarrow> key_gt k k'"
    using lt keyed_set [of vpre] pre by force
  moreover have "\<forall>w \<in> set vpost. \<forall>k'. key_of w = Some k' \<longrightarrow> \<not> key_gt k' k"
    using le keyed_set [of vpost] post by force
  ultimately show ?thesis using vs k l m by auto
qed

lemma last_sorted_Max:
  assumes "sorted xs" and "xs \<noteq> []"
  shows "last xs = Max (set xs)"
proof -
  from assms(2) obtain ys z where xs: "xs = ys @ [z]" by (metis append_butlast_last_id)
  with assms(1) have "\<forall>y \<in> set ys. y \<le> z" by (simp add: sorted_append)
  then have "Max (set xs) = z" unfolding xs by (intro Max_eqI) auto
  then show ?thesis by (simp add: xs)
qed

lemma latest_fallback:
  assumes "vs \<noteq> []" and "keyed vs = []"
  shows "latest_of vs = Max (set vs)"
proof -
  have ne: "sort vs \<noteq> []" using assms(1) by (metis length_0_conv length_sort)
  have "last (sort vs) = Max (set (sort vs))"
    using sorted_sort ne by (rule last_sorted_Max)
  then show ?thesis using assms(2) by (simp add: latest_of_def)
qed

section \<open>What the pattern accepts\<close>

text \<open>
  Among the strings of the model, the pattern matches those that \<open>is_semantic_version\<close>
  accepts and each of them followed by one newline (\<open>key_of_accepts\<close>).
  \<open>is_semantic_version\<close> lets an identifier of the prerelease or the build be empty, as
  the pattern does.
\<close>

lemma digit_not_special:
  "is_digit c \<Longrightarrow> c \<noteq> CHR ''.'' \<and> c \<noteq> CHR ''-'' \<and> c \<noteq> CHR ''+'' \<and> c \<noteq> CHR 0x0A"
  by (auto simp: is_digit_def)

lemma ident_not_special: "is_ident_char c \<Longrightarrow> c \<noteq> CHR ''+'' \<and> c \<noteq> CHR 0x0A"
  by (auto simp: is_ident_char_def is_digit_def is_alpha_def)

lemma special_not_digit:
  "\<not> is_digit (CHR ''.'')" "\<not> is_digit (CHR ''-'')" "\<not> is_digit (CHR ''+'')" "\<not> is_digit (CHR 0x0A)"
  by (simp_all add: is_digit_def)

lemma special_not_ident: "\<not> is_ident_char (CHR ''+'')" "\<not> is_ident_char (CHR 0x0A)"
  by (simp_all add: is_ident_char_def is_digit_def is_alpha_def)

text \<open>What a matcher returns is a piece of its input.\<close>

lemma zero_is_digit: "is_digit (CHR ''0'')"
  by (simp add: is_digit_def)

lemma match_number_Some:
  assumes "match_number s = Some (n, r)"
  shows "s = n @ r \<and> numeric_part n"
proof (cases s)
  case Nil
  with assms show ?thesis by simp
next
  case (Cons c cs)
  show ?thesis
  proof (cases "c = CHR ''0''")
    case True
    with assms Cons show ?thesis by (auto simp: numeric_part_def zero_is_digit)
  next
    case False
    with assms Cons have d: "is_digit c" and n: "n = c # takeWhile is_digit cs"
      and r: "r = dropWhile is_digit cs" by (auto split: if_splits)
    have "\<forall>x \<in> set (takeWhile is_digit cs). is_digit x" by (blast dest: set_takeWhileD)
    with d False show ?thesis unfolding n r Cons by (simp add: numeric_part_def list_all_iff)
  qed
qed

lemma match_dot_Some: "match_dot s = Some r \<longleftrightarrow> s = CHR ''.'' # r"
  by (cases s) auto

lemma match_prerelease_eq:
  "match_prerelease s = (pre, r) \<Longrightarrow> s = opt (CHR ''-'') pre @ r \<and> run_ok pre"
  by (cases s) (auto simp: run_ok_def list_all_iff split: if_splits dest: set_takeWhileD)

lemma match_build_eq:
  "\<exists>b. s = opt (CHR ''+'') b @ match_build s \<and> run_ok b"
proof (cases "\<exists>cs. s = CHR ''+'' # cs \<and> takeWhile is_ident_char cs \<noteq> []")
  case True
  then obtain cs where s: "s = CHR ''+'' # cs" and ne: "takeWhile is_ident_char cs \<noteq> []" by blast
  have "s = opt (CHR ''+'') (Some (takeWhile is_ident_char cs)) @ match_build s"
    using s ne by simp
  moreover have "run_ok (Some (takeWhile is_ident_char cs))"
    using ne by (auto simp: run_ok_def list_all_iff dest: set_takeWhileD)
  ultimately show ?thesis by blast
next
  case False
  then have "match_build s = s" by (cases s) auto
  then have "s = opt (CHR ''+'') None @ match_build s \<and> run_ok None"
    by (simp add: run_ok_def)
  then show ?thesis by blast
qed

text \<open>And on an input made of such pieces, the matchers return them.\<close>

lemma match_number_append:
  assumes "numeric_part n" and "r = [] \<or> \<not> is_digit (hd r)"
  shows "match_number (n @ r) = Some (n, r)"
proof -
  from assms(1) obtain c cs where n: "n = c # cs" by (cases n) (auto simp: numeric_part_def)
  show ?thesis
  proof (cases "c = CHR ''0''")
    case True
    with assms(1) n have "cs = []" by (simp add: numeric_part_def)
    with True n show ?thesis by simp
  next
    case False
    from assms(1) n have d: "is_digit c" "\<forall>x \<in> set cs. is_digit x"
      by (simp_all add: numeric_part_def list_all_iff)
    have "takeWhile is_digit (cs @ r) = cs \<and> dropWhile is_digit (cs @ r) = r"
      using d(2) assms(2) by (cases r) (simp_all add: takeWhile_append2 dropWhile_append2)
    with False d(1) n show ?thesis by simp
  qed
qed

lemma match_prerelease_append:
  assumes "run_ok pre" and "r = [] \<or> (\<not> is_ident_char (hd r) \<and> (pre = None \<longrightarrow> hd r \<noteq> CHR ''-''))"
  shows "match_prerelease (opt (CHR ''-'') pre @ r) = (pre, r)"
proof (cases pre)
  case None
  then show ?thesis using assms(2) by (cases r) auto
next
  case (Some p)
  with assms(1) have p: "p \<noteq> []" "\<forall>x \<in> set p. is_ident_char x"
    by (simp_all add: run_ok_def list_all_iff)
  have "takeWhile is_ident_char (p @ r) = p \<and> dropWhile is_ident_char (p @ r) = r"
    using p(2) assms(2) by (cases r) (simp_all add: takeWhile_append2 dropWhile_append2)
  with Some p(1) show ?thesis by simp
qed

lemma match_build_append:
  assumes "run_ok b" and "r = [] \<or> r = [CHR 0x0A]"
  shows "match_build (opt (CHR ''+'') b @ r) = r"
proof (cases b)
  case None
  then show ?thesis using assms(2) by auto
next
  case (Some p)
  with assms(1) have p: "p \<noteq> []" "\<forall>x \<in> set p. is_ident_char x"
    by (simp_all add: run_ok_def list_all_iff)
  have "takeWhile is_ident_char (p @ r) = p \<and> dropWhile is_ident_char (p @ r) = r"
    using p(2) assms(2) by (auto simp: takeWhile_append2 dropWhile_append2 special_not_ident)
  with Some p(1) show ?thesis by simp
qed


lemma semver_match_Some:
  assumes "semver_match v = Some g"
  shows "\<exists>u e. match_v v = u @ e \<and> (e = [] \<or> e = [CHR 0x0A]) \<and> shape u"
proof -
  from assms obtain ma s1 where m1: "match_number (match_v v) = Some (ma, s1)"
    by (auto simp: semver_match_def split: option.splits)
  from assms m1 obtain s2 where d1: "match_dot s1 = Some s2"
    by (auto simp: semver_match_def split: option.splits)
  from assms m1 d1 obtain mi s3 where m2: "match_number s2 = Some (mi, s3)"
    by (auto simp: semver_match_def split: option.splits)
  from assms m1 d1 m2 obtain s4 where d2: "match_dot s3 = Some s4"
    by (auto simp: semver_match_def split: option.splits)
  from assms m1 d1 m2 d2 obtain pa s5 where m3: "match_number s4 = Some (pa, s5)"
    by (auto simp: semver_match_def split: option.splits)
  obtain pre s6 where p: "match_prerelease s5 = (pre, s6)" by (cases "match_prerelease s5")
  from assms m1 d1 m2 d2 m3 p have e: "match_end (match_build s6)"
    by (auto simp: semver_match_def split: if_splits)
  obtain b where b: "s6 = opt (CHR ''+'') b @ match_build s6" "run_ok b"
    using match_build_eq [of s6] by blast
  have "match_v v = ma @ s1" "numeric_part ma" using match_number_Some [OF m1] by simp_all
  moreover have "s1 = CHR ''.'' # s2" using d1 by (simp add: match_dot_Some)
  moreover have "s2 = mi @ s3" "numeric_part mi" using match_number_Some [OF m2] by simp_all
  moreover have "s3 = CHR ''.'' # s4" using d2 by (simp add: match_dot_Some)
  moreover have "s4 = pa @ s5" "numeric_part pa" using match_number_Some [OF m3] by simp_all
  moreover have "s5 = opt (CHR ''-'') pre @ s6" "run_ok pre"
    using match_prerelease_eq [OF p] by simp_all
  ultimately have "match_v v =
      (ma @ CHR ''.'' # mi @ CHR ''.'' # pa @ opt (CHR ''-'') pre @ opt (CHR ''+'') b) @ match_build s6"
    and "shape (ma @ CHR ''.'' # mi @ CHR ''.'' # pa @ opt (CHR ''-'') pre @ opt (CHR ''+'') b)"
    using b unfolding shape_def by (simp, blast)
  moreover have "match_build s6 = [] \<or> match_build s6 = [CHR 0x0A]"
    using e by (simp add: match_end_def)
  ultimately show ?thesis by blast
qed

lemma tail_head:
  assumes "e = [] \<or> e = [CHR 0x0A]" and "run_ok pre" and "run_ok build"
  shows "opt (CHR ''-'') pre @ opt (CHR ''+'') build @ e = [] \<or>
         \<not> is_digit (hd (opt (CHR ''-'') pre @ opt (CHR ''+'') build @ e))"
    and "opt (CHR ''+'') build @ e = [] \<or>
         (\<not> is_ident_char (hd (opt (CHR ''+'') build @ e)) \<and>
          (pre = None \<longrightarrow> hd (opt (CHR ''+'') build @ e) \<noteq> CHR ''-''))"
  using assms(1)
  by (cases pre; cases build; auto simp: special_not_digit special_not_ident)+

lemma semver_match_shape:
  assumes "shape u" and "e = [] \<or> e = [CHR 0x0A]" and "match_v v = u @ e"
  shows "semver_match v \<noteq> None"
proof -
  from assms(1) obtain ma mi pa pre build where
    u: "u = ma @ CHR ''.'' # mi @ CHR ''.'' # pa @ opt (CHR ''-'') pre @ opt (CHR ''+'') build"
    and n: "numeric_part ma" "numeric_part mi" "numeric_part pa"
    and r: "run_ok pre" "run_ok build"
    unfolding shape_def by blast
  let ?t = "opt (CHR ''-'') pre @ opt (CHR ''+'') build @ e"
  have m1: "match_number (match_v v) = Some (ma, CHR ''.'' # mi @ CHR ''.'' # pa @ ?t)"
    using match_number_append [OF n(1), of "CHR ''.'' # mi @ CHR ''.'' # pa @ ?t"]
    unfolding assms(3) u by (simp add: special_not_digit)
  have m2: "match_number (mi @ CHR ''.'' # pa @ ?t) = Some (mi, CHR ''.'' # pa @ ?t)"
    using match_number_append [OF n(2), of "CHR ''.'' # pa @ ?t"]
    by (simp add: special_not_digit)
  have m3: "match_number (pa @ ?t) = Some (pa, ?t)"
    using match_number_append [OF n(3), of ?t] tail_head(1) [OF assms(2) r] by simp
  have p: "match_prerelease ?t = (pre, opt (CHR ''+'') build @ e)"
    using match_prerelease_append [OF r(1), of "opt (CHR ''+'') build @ e"]
      tail_head(2) [OF assms(2) r] by simp
  have b: "match_build (opt (CHR ''+'') build @ e) = e"
    using r(2) assms(2) by (rule match_build_append)
  have "match_end e" using assms(2) by (simp add: match_end_def)
  then show ?thesis
    by (simp add: semver_match_def m1 m2 m3 p b)
qed


lemma cut_eq: "cut d s = (a, b) \<Longrightarrow> s = a @ opt d b \<and> d \<notin> set a"
proof (induction s arbitrary: a b)
  case Nil
  then show ?case by simp
next
  case (Cons c cs)
  show ?case
  proof (cases "c = d")
    case True
    with Cons.prems show ?thesis by auto
  next
    case False
    obtain a' b' where c: "cut d cs = (a', b')" by (cases "cut d cs")
    with Cons.prems False have "a = c # a'" "b = b'" by simp_all
    with Cons.IH [OF c] False show ?thesis by simp
  qed
qed

lemma cut_opt: "cut d (opt d b) = ([], b)"
  by (cases b) simp_all

lemma cut_append: "d \<notin> set xs \<Longrightarrow> cut d (xs @ opt d b) = (xs, b)"
  by (induction xs) (auto simp: cut_opt)

lemma split_on_ne: "split_on d s \<noteq> []"
  by (induction s) simp_all

lemma split_on_notin: "d \<notin> set xs \<Longrightarrow> split_on d xs = [xs]"
  by (induction xs) auto

lemma split_on_append: "d \<notin> set xs \<Longrightarrow> split_on d (xs @ d # ys) = xs # split_on d ys"
  by (induction xs) auto

lemma split_on_Cons:
  "split_on d s = p # ps \<Longrightarrow>
     d \<notin> set p \<and> (if ps = [] then s = p else \<exists>r. s = p @ d # r \<and> split_on d r = ps)"
proof (induction s arbitrary: p ps)
  case Nil
  then show ?case by simp
next
  case (Cons c cs)
  show ?case
  proof (cases "c = d")
    case True
    with Cons.prems have "p = []" "ps = split_on d cs" by simp_all
    with True show ?thesis by (simp add: split_on_ne)
  next
    case False
    obtain p' ps' where sp: "split_on d cs = p' # ps'"
      using split_on_ne [of d cs] by (cases "split_on d cs") auto
    with Cons.prems False have e: "p = c # p'" "ps = ps'" by simp_all
    from Cons.IH [OF sp] False show ?thesis unfolding e by auto
  qed
qed

lemma split_on_three:
  assumes "split_on d s = [a, b, c]"
  shows "s = a @ d # b @ d # c"
proof -
  from split_on_Cons [OF assms] obtain r where r: "s = a @ d # r" "split_on d r = [b, c]" by auto
  from split_on_Cons [OF r(2)] obtain r' where r': "r = b @ d # r'" "split_on d r' = [c]" by auto
  from split_on_Cons [OF r'(2)] have "r' = c" by simp
  with r r' show ?thesis by simp
qed

lemma identifiers_iff: "identifiers p \<longleftrightarrow> p \<noteq> [] \<and> list_all is_ident_char p"
proof -
  have "list_all identifier_ok (split_on (CHR ''.'') p) \<longleftrightarrow> list_all is_ident_char p"
  proof (induction p)
    case Nil
    show ?case by (simp add: identifier_ok_def)
  next
    case (Cons c cs)
    obtain q qs where sp: "split_on (CHR ''.'') cs = q # qs"
      using split_on_ne [of "CHR ''.''" cs] by (cases "split_on (CHR ''.'') cs") auto
    show ?case
    proof (cases "c = CHR ''.''")
      case True
      with Cons show ?thesis by (simp add: identifier_ok_def is_ident_char_def)
    next
      case False
      then have "is_ident_char c \<longleftrightarrow> is_digit c \<or> is_alpha c \<or> c = CHR ''-''"
        by (simp add: is_ident_char_def)
      with Cons False sp show ?thesis by (auto simp: identifier_ok_def)
    qed
  qed
  then show ?thesis by (simp add: identifiers_def)
qed

lemma run_ok_identifiers:
  "run_ok x \<longleftrightarrow> (case x of None \<Rightarrow> True | Some p \<Rightarrow> identifiers p)"
  by (simp add: run_ok_def identifiers_iff split: option.split)

lemma body_match_v:
  "(case s of [] \<Rightarrow> [] | c # cs \<Rightarrow> if c = CHR ''v'' then cs else c # cs) = match_v s"
  by (cases s) simp_all

lemma numeric_part_chars: "numeric_part n \<Longrightarrow> \<forall>c \<in> set n. is_digit c"
  by (simp add: numeric_part_def list_all_iff)

lemma is_semantic_version_shape: "is_semantic_version v \<longleftrightarrow> shape (match_v v)"
proof
  assume a: "is_semantic_version v"
  obtain front build where c1: "cut (CHR ''+'') (match_v v) = (front, build)"
    by (cases "cut (CHR ''+'') (match_v v)")
  obtain core pre where c2: "cut (CHR ''-'') front = (core, pre)"
    by (cases "cut (CHR ''-'') front")
  from a c1 c2 obtain ma mi pa where
    sp: "split_on (CHR ''.'') core = [ma, mi, pa]"
    and n: "numeric_part ma" "numeric_part mi" "numeric_part pa"
    and r: "run_ok pre" "run_ok build"
    unfolding is_semantic_version_def body_match_v run_ok_identifiers
    by (auto simp: Let_def split: list.splits)
  have "match_v v = front @ opt (CHR ''+'') build" using cut_eq [OF c1] by simp
  also have "front = core @ opt (CHR ''-'') pre" using cut_eq [OF c2] by simp
  also have "core = ma @ CHR ''.'' # mi @ CHR ''.'' # pa" using sp by (rule split_on_three)
  finally have "match_v v =
      ma @ CHR ''.'' # mi @ CHR ''.'' # pa @ opt (CHR ''-'') pre @ opt (CHR ''+'') build"
    by simp
  with n r show "shape (match_v v)" unfolding shape_def by blast
next
  assume "shape (match_v v)"
  then obtain ma mi pa pre build where
    u: "match_v v = ma @ CHR ''.'' # mi @ CHR ''.'' # pa @ opt (CHR ''-'') pre @ opt (CHR ''+'') build"
    and n: "numeric_part ma" "numeric_part mi" "numeric_part pa"
    and r: "run_ok pre" "run_ok build"
    unfolding shape_def by blast
  let ?core = "ma @ CHR ''.'' # mi @ CHR ''.'' # pa"
  have d: "\<forall>c \<in> set ma \<union> set mi \<union> set pa. is_digit c"
    using n by (auto dest: numeric_part_chars)
  have core_plus: "CHR ''+'' \<notin> set ?core" and core_minus: "CHR ''-'' \<notin> set ?core"
    using d by (auto dest: digit_not_special)
  have pre_plus: "CHR ''+'' \<notin> set (opt (CHR ''-'') pre)"
    using r(1) by (cases pre) (auto simp: run_ok_def list_all_iff dest: ident_not_special)
  have c1: "cut (CHR ''+'') (match_v v) = (?core @ opt (CHR ''-'') pre, build)"
    using cut_append [of "CHR ''+''" "?core @ opt (CHR ''-'') pre" build] core_plus pre_plus
    unfolding u by simp
  have "cut (CHR ''-'') (?core @ opt (CHR ''-'') pre) = (?core, pre)"
    using core_minus by (rule cut_append)
  then have c2: "cut (CHR ''-'') (ma @ CHR ''.'' # mi @ CHR ''.'' # pa @ opt (CHR ''-'') pre) =
      (?core, pre)" by simp
  have dots: "CHR ''.'' \<notin> set ma" "CHR ''.'' \<notin> set mi" "CHR ''.'' \<notin> set pa"
    using d by (auto dest: digit_not_special)
  have sp: "split_on (CHR ''.'') ?core = [ma, mi, pa]"
    by (simp add: split_on_append dots split_on_notin)
  show "is_semantic_version v"
    unfolding is_semantic_version_def body_match_v
    using n r by (simp add: c1 c2 sp run_ok_identifiers [symmetric])
qed


lemma shape_not_Nil: "\<not> shape []"
  by (simp add: shape_def)

lemma match_v_append: "u \<noteq> [] \<Longrightarrow> match_v (u @ e) = match_v u @ e"
  by (cases u) auto

lemma match_v_snoc:
  assumes "match_v v = u @ [c]" and "u \<noteq> []"
  shows "\<exists>u'. v = u' @ [c] \<and> match_v u' = u"
proof (cases v)
  case Nil
  with assms show ?thesis by simp
next
  case (Cons a as)
  show ?thesis
  proof (cases "a = CHR ''v''")
    case True
    with Cons assms have "v = (a # u) @ [c] \<and> match_v (a # u) = u" by simp
    then show ?thesis by blast
  next
    case False
    with Cons assms have v: "v = u @ [c]" by simp
    with Cons False assms(2) have "match_v u = u" by (cases u) auto
    with v show ?thesis by blast
  qed
qed

lemma key_of_match: "key_of v \<noteq> None \<longleftrightarrow> semver_match v \<noteq> None"
  by (auto simp: key_of_def split: option.splits)

lemma key_of_accepts:
  "key_of v \<noteq> None \<longleftrightarrow>
     is_semantic_version v \<or> (\<exists>u. v = u @ [CHR 0x0A] \<and> is_semantic_version u)"
proof
  assume "key_of v \<noteq> None"
  then have "semver_match v \<noteq> None" using key_of_match [of v] by blast
  then obtain g where "semver_match v = Some g" by blast
  from semver_match_Some [OF this] obtain u e where
    m: "match_v v = u @ e" and e: "e = [] \<or> e = [CHR 0x0A]" and s: "shape u" by blast
  from e show "is_semantic_version v \<or> (\<exists>u. v = u @ [CHR 0x0A] \<and> is_semantic_version u)"
  proof
    assume "e = []"
    with m s show ?thesis by (simp add: is_semantic_version_shape)
  next
    assume "e = [CHR 0x0A]"
    moreover have "u \<noteq> []" using s shape_not_Nil by blast
    ultimately obtain u' where "v = u' @ [CHR 0x0A]" "match_v u' = u"
      using m match_v_snoc by blast
    with s show ?thesis by (auto simp: is_semantic_version_shape)
  qed
next
  assume "is_semantic_version v \<or> (\<exists>u. v = u @ [CHR 0x0A] \<and> is_semantic_version u)"
  then show "key_of v \<noteq> None"
  proof
    assume "is_semantic_version v"
    then have "shape (match_v v)" by (simp add: is_semantic_version_shape)
    then have "semver_match v \<noteq> None"
      by (rule semver_match_shape [of _ "[]"]) simp_all
    then show ?thesis using key_of_match [of v] by blast
  next
    assume "\<exists>u. v = u @ [CHR 0x0A] \<and> is_semantic_version u"
    then obtain u where v: "v = u @ [CHR 0x0A]" and s: "shape (match_v u)"
      by (auto simp: is_semantic_version_shape)
    have "u \<noteq> []" using s shape_not_Nil by (cases u) auto
    then have m: "match_v v = match_v u @ [CHR 0x0A]" unfolding v by (rule match_v_append)
    have "semver_match v \<noteq> None"
      using s _ m by (rule semver_match_shape) simp
    then show ?thesis using key_of_match [of v] by blast
  qed
qed


lemma key_of_no_newline:
  assumes "v = [] \<or> last v \<noteq> CHR 0x0A"
  shows "key_of v \<noteq> None \<longleftrightarrow> is_semantic_version v"
  using assms key_of_accepts [of v] by auto

section \<open>Versions with a number too long for \<open>int()\<close>\<close>

lemma long_prerelease_raises:
  assumes "length ds > max_str_digits" and "list_all is_digit ds"
  shows "raises (''1.0.0-'' @ ds)"
proof -
  have ne: "ds \<noteq> []" using assms(1) by auto
  have ident: "list_all is_ident_char ds"
    using assms(2) by (simp add: list_all_iff is_ident_char_def)
  have "match_prerelease (opt (CHR ''-'') (Some ds) @ []) = (Some ds, [])"
    by (rule match_prerelease_append) (simp_all add: run_ok_def ne ident)
  then have p: "match_prerelease (CHR ''-'' # ds) = (Some ds, [])" by simp
  have m: "semver_match (''1.0.0-'' @ ds) = Some (''1'', ''0'', ''0'', Some ds)"
    by (simp add: semver_match_def p is_digit_def match_end_def del: match_prerelease.simps)
  have dot: "CHR ''.'' \<notin> set ds"
    using assms(2) by (auto simp: list_all_iff dest: digit_not_special)
  have parts: "parts_loop [] (split_on (CHR ''.'') ds) = Inl ValueError"
    using assms ne by (simp add: split_on_notin [OF dot] isdigit_def py_int_def)
  have short: "py_int ''1'' = Inr 1" "py_int ''0'' = Inr 0"
    by (simp_all add: py_int_def max_str_digits_def int_of_digits_def digit_value_def)
  show ?thesis
    using m by (simp add: raises_def semver_key_def short parts)
qed

lemma long_digits_raises:
  assumes "is_digit c"
  shows "raises (''1.0.0-'' @ long_digits c)"
  by (rule long_prerelease_raises) (simp_all add: long_digits_def list_all_iff assms)

lemma long_digits_length: "length (long_digits c) = 4301"
  by (simp add: long_digits_def max_str_digits_def)

lemma long_version_other:
  "''1.0.0-'' @ long_digits c \<noteq> ''1.0.0''" "''1.0.0-'' @ long_digits c \<noteq> ''v1.0.0''"
  "''1.0.0'' \<noteq> ''1.0.0-'' @ long_digits c" "''v1.0.0'' \<noteq> ''1.0.0-'' @ long_digits c"
  by simp_all

lemma fresh_run:
  "run fresh requests = run (init ''arp-template-node-registry'' ''0.1.0'') requests"
  by (simp add: fresh_def)

lemma inv_run_fresh: "registry_inv (run fresh requests)"
  unfolding fresh_def by (rule inv_run [OF inv_init])

lemma publish_fresh_echo:
  "publish_node_type fresh (echo v) =
     (Inr (echo v), run fresh [PublishRequest (echo v)])"
  by (simp add: run_def fresh_def init_def publish_node_type_def echo_def versions_of_def)

section \<open>The version index is backed by the store\<close>

text \<open>
  C3. The invariant "every version listed in the version index of an id has an entry in
  the store under (id, version)" holds of the registry as the constructor makes it, and
  every operation (health, version, publish, get, list) leaves a registry that has it
  one that has it. A publish that succeeds leaves the store with the new entry and the
  index of the id with the new version appended, both; one that fails leaves the
  registry as it was.
\<close>

theorem index_backed_by_store:
  "registry_inv (init name ver) \<and>
   (registry_inv self \<longrightarrow>
      registry_inv (snd (health self clock)) \<and>
      registry_inv (snd (registry_version self)) \<and>
      registry_inv (snd (publish_node_type self nt)) \<and>
      registry_inv (snd (get_node_type self i vo)) \<and>
      registry_inv (snd (list_node_types self q k))) \<and>
   (\<forall>self'. publish_node_type self nt = (Inr nt, self') \<longrightarrow>
      self_store self' = AList.update (node_type_id nt, version nt) nt (self_store self) \<and>
      versions_of self' (node_type_id nt) = versions_of self (node_type_id nt) @ [version nt]) \<and>
   (\<forall>e self'. publish_node_type self nt = (Inl e, self') \<longrightarrow> self' = self)"
proof (intro conjI impI allI)
  show "registry_inv (init name ver)" by (rule inv_init)
next
  assume "registry_inv self"
  then show "registry_inv (snd (publish_node_type self nt))" by (rule inv_publish)
next
  fix self' assume "publish_node_type self nt = (Inr nt, self')"
  then show "self_store self' = AList.update (node_type_id nt, version nt) nt (self_store self)"
    by (auto dest: publish_cases)
next
  fix self' assume "publish_node_type self nt = (Inr nt, self')"
  then show "versions_of self' (node_type_id nt) = versions_of self (node_type_id nt) @ [version nt]"
    by (auto dest: publish_cases)
next
  fix e self' assume "publish_node_type self nt = (Inl e, self')"
  then show "self' = self"
    by (auto dest: publish_cases)
qed (simp_all add: snd_health snd_registry_version snd_get_node_type snd_list_node_types)

theorem index_backed_by_store_witness:
  "registry_inv fresh \<and>
   registry_inv (snd (publish_node_type fresh (echo ''1.0.0''))) \<and>
   self_store (run fresh [PublishRequest (echo ''1.0.0'')]) =
     AList.update (''atomic.echo'', ''1.0.0'') (echo ''1.0.0'') [] \<and>
   versions_of (run fresh [PublishRequest (echo ''1.0.0'')]) ''atomic.echo'' = [] @ [''1.0.0'']"
proof -
  note t = index_backed_by_store
    [where name = "''arp-template-node-registry''" and ver = "''0.1.0''" and self = fresh
       and nt = "echo ''1.0.0''" and clock = 0 and i = "[]" and vo = None and q = None
       and k = None]
  have a: "registry_inv fresh"
    using t unfolding fresh_def by blast
  have b: "registry_inv (snd (publish_node_type fresh (echo ''1.0.0'')))"
    using t a by blast
  have c: "self_store (run fresh [PublishRequest (echo ''1.0.0'')]) =
             AList.update (node_type_id (echo ''1.0.0''), version (echo ''1.0.0''))
               (echo ''1.0.0'') (self_store fresh) \<and>
           versions_of (run fresh [PublishRequest (echo ''1.0.0'')]) (node_type_id (echo ''1.0.0'')) =
             versions_of fresh (node_type_id (echo ''1.0.0'')) @ [version (echo ''1.0.0'')]"
    using t publish_fresh_echo [of "''1.0.0''"] by blast
  have d: "self_store fresh = []" "versions_of fresh ''atomic.echo'' = []"
    "node_type_id (echo ''1.0.0'') = ''atomic.echo''" "version (echo ''1.0.0'') = ''1.0.0''"
    by (simp_all add: fresh_def init_def versions_of_def echo_def)
  from a b c show ?thesis unfolding d by blast
qed

section \<open>Round trip\<close>

text \<open>
  C4. A publish that succeeds returns the NodeType it was given, and from then on,
  whatever requests follow, getting the id at that version returns that NodeType,
  field for field.
\<close>

theorem publish_then_get:
  assumes "publish_node_type self nt = (Inr r, self')"
  shows "r = nt \<and>
         get_node_type (run self' requests) (node_type_id nt) (Some (version nt)) =
           (Inr nt, run self' requests)"
proof -
  from assms have fresh: "map_of (self_store self) (node_type_id nt, version nt) = None"
    and r: "r = nt" and s: "self' = snd (publish_node_type self nt)"
    by (auto dest: publish_cases)
  have "map_of (self_store self') (node_type_id nt, version nt) = Some nt"
    unfolding s by (simp add: publish_fresh_store [OF fresh])
  then have "map_of (self_store (run self' requests)) (node_type_id nt, version nt) = Some nt"
    by (rule stored_run)
  then show ?thesis using r by (simp add: get_some_present)
qed

theorem publish_then_get_witness:
  "get_node_type
     (run (run fresh [PublishRequest (echo ''1.0.0'')])
        [PublishRequest (echo ''2.0.0''), GetRequest ''atomic.echo'' None])
     ''atomic.echo'' (Some ''1.0.0'') =
   (Inr (echo ''1.0.0''),
    run (run fresh [PublishRequest (echo ''1.0.0'')])
      [PublishRequest (echo ''2.0.0''), GetRequest ''atomic.echo'' None])"
  using publish_then_get [OF publish_fresh_echo [of "''1.0.0''"]]
  by (simp add: echo_def)

section \<open>When get fails\<close>

text \<open>
  In a registry that the constructor made and any requests have worked on, get raises
  the error of code \<open>node_type_not_found\<close> and status 404 in two cases, and in no
  other: with the version omitted and no version published for the id, the message
  naming the id alone; and with a version given whose key is not in the store, the
  message naming \<open>id@version\<close>. With a version given whose key is in the store it
  succeeds. With the version omitted and some version published it succeeds when
  \<open>_semver_key\<close> returns for every version of the id, and raises \<open>ValueError\<close> when for
  one of them it raises.
\<close>

lemma get_outcomes:
  assumes "self = run (init name ver) requests"
  shows "(versions_of self i = [] \<longrightarrow>
            get_node_type self i None =
              (Inl (ArpError
                 \<lparr>code = ''node_type_not_found'',
                  message = ''NodeType '' @ [CHR 0x27] @ i @ [CHR 0x27] @ '' not found'',
                  status_code = 404\<rparr>), self)) \<and>
         (versions_of self i \<noteq> [] \<and> (\<forall>w \<in> set (versions_of self i). \<not> raises w) \<longrightarrow>
            (\<exists>nt. get_node_type self i None = (Inr nt, self))) \<and>
         ((\<exists>w \<in> set (versions_of self i). raises w) \<longrightarrow>
            get_node_type self i None = (Inl ValueError, self)) \<and>
         (map_of (self_store self) (i, v) = None \<longrightarrow>
            get_node_type self i (Some v) =
              (Inl (ArpError
                 \<lparr>code = ''node_type_not_found'',
                  message = ''NodeType '' @ [CHR 0x27] @ i @ ''@'' @ v @ [CHR 0x27] @ '' not found'',
                  status_code = 404\<rparr>), self)) \<and>
         (map_of (self_store self) (i, v) \<noteq> None \<longrightarrow>
            (\<exists>nt. get_node_type self i (Some v) = (Inr nt, self)))"
proof (intro conjI impI)
  have "registry_inv self" unfolding assms by (rule inv_run [OF inv_init])
  moreover assume "versions_of self i \<noteq> [] \<and> (\<forall>w \<in> set (versions_of self i). \<not> raises w)"
  ultimately show "\<exists>nt. get_node_type self i None = (Inr nt, self)"
    using get_latest by blast
next
  assume "\<exists>w \<in> set (versions_of self i). raises w"
  then show "get_node_type self i None = (Inl ValueError, self)" by (rule get_raises)
qed (auto simp: get_none_empty get_some_absent get_some_present not_found_def quoted_def at_version_def)

lemma versions_long:
  "versions_of (run fresh [PublishRequest (echo (''1.0.0-'' @ long_digits (CHR ''9'')))])
     ''atomic.echo'' = [''1.0.0-'' @ long_digits (CHR ''9'')]"
  by (simp add: run_fresh_1 versions_of_def)

lemma nine_is_digit: "is_digit (CHR ''9'')"
  by (simp add: is_digit_def)

text \<open>
  C5. With one version published whose prerelease is a run of 4301 nines, get without a
  version raises the \<open>ValueError\<close> of \<open>int()\<close>: it neither succeeds nor raises the
  not-found error, though a version is published for the id.
\<close>

theorem long_prerelease_get_raises:
  "length (long_digits (CHR ''9'')) = 4301 \<and>
   versions_of (run fresh [PublishRequest (echo (''1.0.0-'' @ long_digits (CHR ''9'')))])
     ''atomic.echo'' = [''1.0.0-'' @ long_digits (CHR ''9'')] \<and>
   fst (get_node_type
          (run fresh [PublishRequest (echo (''1.0.0-'' @ long_digits (CHR ''9'')))])
          ''atomic.echo'' None) = Inl ValueError"
proof -
  have "\<exists>w \<in> set (versions_of
      (run fresh [PublishRequest (echo (''1.0.0-'' @ long_digits (CHR ''9'')))]) ''atomic.echo'').
      raises w"
    unfolding versions_long using long_digits_raises [OF nine_is_digit] by simp
  from get_raises [OF this] show ?thesis
    by (simp only: long_digits_length versions_long fst_conv simp_thms)
qed

section \<open>Get without a version, on an id that has versions\<close>

text \<open>
  In a registry whose index is backed by the store, get with the version omitted on an
  id with at least one published version succeeds when \<open>_semver_key\<close> returns for every
  version of the id: the version it resolves to is one of the published versions, so
  its key is in the store, and the entry there is what get returns.
\<close>

lemma get_latest_succeeds:
  assumes "registry_inv self" and "versions_of self i \<noteq> []"
    and "\<forall>w \<in> set (versions_of self i). \<not> raises w"
  shows "latest (versions_of self i) = Inr (latest_of (versions_of self i)) \<and>
         latest_of (versions_of self i) \<in> set (versions_of self i) \<and>
         (\<exists>nt. map_of (self_store self) (i, latest_of (versions_of self i)) = Some nt \<and>
               get_node_type self i None = (Inr nt, self))"
  using assms get_latest latest_in by (simp add: latest_eq)

lemma zero_long_versions:
  "versions_of
     (run fresh [PublishRequest (echo ''1.0.0''),
                 PublishRequest (echo (''1.0.0-'' @ long_digits (CHR ''0'')))])
     ''atomic.echo'' = [''1.0.0'', ''1.0.0-'' @ long_digits (CHR ''0'')]"
  by (simp add: run_def fresh_def init_def publish_node_type_def echo_def versions_of_def
      long_version_other)

lemma zero_long_store:
  "map (fst \<circ> fst)
     (self_store
        (run fresh [PublishRequest (echo ''1.0.0''),
                    PublishRequest (echo (''1.0.0-'' @ long_digits (CHR ''0'')))])) =
   [''atomic.echo'', ''atomic.echo''] \<and>
   map (snd \<circ> fst)
     (self_store
        (run fresh [PublishRequest (echo ''1.0.0''),
                    PublishRequest (echo (''1.0.0-'' @ long_digits (CHR ''0'')))])) =
   [''1.0.0'', ''1.0.0-'' @ long_digits (CHR ''0'')]"
  by (simp add: run_def fresh_def init_def publish_node_type_def echo_def versions_of_def
      long_version_other)

text \<open>
  C9. With \<open>1.0.0\<close> and a version whose prerelease is a run of 4301 zeros published, the
  index of the id holds both and the store has an entry for each, and get without a
  version fails: it raises the \<open>ValueError\<close> of \<open>int()\<close>.
\<close>

theorem long_zeros_get_raises:
  "versions_of
     (run fresh [PublishRequest (echo ''1.0.0''),
                 PublishRequest (echo (''1.0.0-'' @ long_digits (CHR ''0'')))])
     ''atomic.echo'' = [''1.0.0'', ''1.0.0-'' @ long_digits (CHR ''0'')] \<and>
   map (snd \<circ> fst)
     (self_store
        (run fresh [PublishRequest (echo ''1.0.0''),
                    PublishRequest (echo (''1.0.0-'' @ long_digits (CHR ''0'')))])) =
     [''1.0.0'', ''1.0.0-'' @ long_digits (CHR ''0'')] \<and>
   fst (get_node_type
          (run fresh [PublishRequest (echo ''1.0.0''),
                      PublishRequest (echo (''1.0.0-'' @ long_digits (CHR ''0'')))])
          ''atomic.echo'' None) = Inl ValueError"
proof -
  have "\<exists>w \<in> set (versions_of
      (run fresh [PublishRequest (echo ''1.0.0''),
                  PublishRequest (echo (''1.0.0-'' @ long_digits (CHR ''0'')))]) ''atomic.echo'').
      raises w"
    unfolding zero_long_versions using long_digits_raises [OF zero_is_digit] by simp
  from get_raises [OF this] zero_long_store show ?thesis
    by (simp only: zero_long_versions fst_conv simp_thms)
qed

section \<open>Reads\<close>

text \<open>
  C8, as stated, fails for health: two calls made at different readings of the clock
  return different results.
\<close>

theorem health_differs_between_calls:
  "fst (health fresh 0) \<noteq> fst (health (snd (health fresh 0)) 1)"
  by (simp add: health_def now_def)

text \<open>
  C8, amended. Requests other than publish (health, version, list, get) leave the
  registry as it was, so after any number of them version, list and get return what
  they returned before; and health returns the status ok with the reading of the clock
  at the call, so that a later health returns what an earlier one returned exactly when
  the clock reads the same at both calls.
\<close>

theorem reads_repeat:
  assumes "list_all is_read requests"
  shows "run self requests = self \<and>
         registry_version (run self requests) = registry_version self \<and>
         list_node_types (run self requests) q k = list_node_types self q k \<and>
         get_node_type (run self requests) i vo = get_node_type self i vo \<and>
         fst (health self clock) = \<lparr>status = ok, time = clock\<rparr> \<and>
         fst (health (run self requests) later) = \<lparr>status = ok, time = later\<rparr> \<and>
         (fst (health (run self requests) later) = fst (health self clock) \<longleftrightarrow>
            later = clock)"
  using assms by (auto simp: run_reads health_def now_def)

theorem reads_repeat_witness:
  "run (run fresh [PublishRequest (echo ''1.0.0'')])
     [GetRequest ''atomic.echo'' None, HealthRequest 7, ListRequest None None, VersionRequest] =
   run fresh [PublishRequest (echo ''1.0.0'')] \<and>
   get_node_type
     (run (run fresh [PublishRequest (echo ''1.0.0'')])
        [GetRequest ''atomic.echo'' None, HealthRequest 7, ListRequest None None, VersionRequest])
     ''atomic.echo'' None =
   get_node_type (run fresh [PublishRequest (echo ''1.0.0'')]) ''atomic.echo'' None \<and>
   fst (health
     (run (run fresh [PublishRequest (echo ''1.0.0'')])
        [GetRequest ''atomic.echo'' None, HealthRequest 7, ListRequest None None, VersionRequest])
     8) = \<lparr>status = ok, time = 8\<rparr> \<and>
   fst (health
     (run (run fresh [PublishRequest (echo ''1.0.0'')])
        [GetRequest ''atomic.echo'' None, HealthRequest 7, ListRequest None None, VersionRequest])
     8) \<noteq> fst (health (run fresh [PublishRequest (echo ''1.0.0'')]) 7)"
  using reads_repeat [of "[GetRequest ''atomic.echo'' None, HealthRequest 7, ListRequest None None, VersionRequest]"
     "run fresh [PublishRequest (echo ''1.0.0'')]" None None "''atomic.echo''" None 7 8]
  by (simp add: health_def now_def)

section \<open>Versions with equal keys\<close>

lemma key_gt_irrefl: "\<not> key_gt k k"
  by (simp add: key_gt_rank)

lemma first_with_key:
  assumes "pre @ v # post = pre' @ l # post'"
    and "key_of v = Some k" and "key_of l = Some k"
    and "\<forall>w \<in> set pre. key_of w \<noteq> Some k"
    and "\<forall>w \<in> set pre'. key_of w \<noteq> Some k"
  shows "l = v"
proof -
  have "takeWhile (\<lambda>w. key_of w \<noteq> Some k) (pre @ v # post) = pre"
    using assms(2,4) by (simp add: takeWhile_tail)
  moreover have "takeWhile (\<lambda>w. key_of w \<noteq> Some k) (pre' @ l # post') = pre'"
    using assms(3,5) by (simp add: takeWhile_tail)
  ultimately have "pre = pre'" using assms(1) by simp
  with assms(1) show ?thesis by simp
qed

lemma latest_first_max:
  assumes vs: "vs = pre @ v # post"
    and k: "key_of v = Some k"
    and first: "\<forall>w \<in> set pre. key_of w \<noteq> Some k"
    and top: "\<forall>w \<in> set vs. \<forall>k'. key_of w = Some k' \<longrightarrow> \<not> key_gt k' k"
  shows "latest_of vs = v"
proof -
  have "(v, k) \<in> set (keyed vs)"
    using vs k by (simp add: keyed_set)
  then have "keyed vs \<noteq> []" by auto
  from latest_semver [OF this] obtain pre' post' kl where
    s: "vs = pre' @ latest_of vs # post'" and kl: "key_of (latest_of vs) = Some kl"
    and lt: "\<forall>w \<in> set pre'. \<forall>k'. key_of w = Some k' \<longrightarrow> key_gt kl k'"
    and le: "\<forall>w \<in> set post'. \<forall>k'. key_of w = Some k' \<longrightarrow> \<not> key_gt k' kl"
    by blast
  have "latest_of vs \<in> set vs" using s by (metis in_set_conv_decomp)
  with top kl have a: "\<not> key_gt kl k" by blast
  have "v \<in> set vs" using vs by simp
  then have "v \<in> set pre' \<or> v = latest_of vs \<or> v \<in> set post'"
    using s by (metis Un_iff set_append set_ConsD)
  then have b: "\<not> key_gt k kl"
  proof (elim disjE)
    assume "v \<in> set pre'"
    with lt k have "key_gt kl k" by blast
    with a show ?thesis by simp
  next
    assume "v = latest_of vs"
    with k kl show ?thesis by (simp add: key_gt_irrefl)
  next
    assume "v \<in> set post'"
    with le k show ?thesis by blast
  qed
  from a b have e: "kl = k" using key_gt_total by blast
  have "\<forall>w \<in> set pre'. key_of w \<noteq> Some k"
    using lt e key_gt_irrefl by blast
  with first_with_key [of pre v post pre' "latest_of vs" post' k] vs s k kl e first
  show ?thesis by simp
qed

text \<open>
  In a registry that the constructor made and any requests have worked on, when
  \<open>_semver_key\<close> returns for every version of an id, the versions that match the pattern
  include several with the same key, and that key is the greatest, get with the version
  omitted returns the NodeType of the one published first: \<open>v\<close> stands in the index
  after versions of other keys only (\<open>pre\<close>), no version of the id has a greater key,
  and whatever follows \<open>v\<close> (\<open>post\<close>), versions with \<open>v\<close>'s key among them, the entry
  of \<open>v\<close> is returned.
\<close>

lemma earliest_of_equal_keys:
  assumes "self = run (init name ver) requests"
    and "versions_of self i = pre @ v # post"
    and "\<forall>w \<in> set (versions_of self i). \<not> raises w"
    and "semver_key v = Inr (Some k)"
    and "\<forall>w \<in> set pre. semver_key w \<noteq> Inr (Some k)"
    and "\<forall>w \<in> set (versions_of self i). \<forall>k'. semver_key w = Inr (Some k') \<longrightarrow> \<not> key_gt k' k"
  shows "\<exists>nt. map_of (self_store self) (i, v) = Some nt \<and>
              get_node_type self i None = (Inr nt, self)"
proof -
  have q: "\<forall>w \<in> set (versions_of self i). semver_key w = Inr (key_of w)"
    using assms(3) by (simp add: not_raises)
  have k: "key_of v = Some k" using assms(4) semver_key_Inr by fastforce
  have first: "\<forall>w \<in> set pre. key_of w \<noteq> Some k"
    using assms(5) q assms(2) by auto
  have top: "\<forall>w \<in> set (versions_of self i). \<forall>k'. key_of w = Some k' \<longrightarrow> \<not> key_gt k' k"
    using assms(6) q by auto
  have "latest_of (versions_of self i) = v"
    using assms(2) k first top by (rule latest_first_max)
  moreover have "versions_of self i \<noteq> []" using assms(2) by simp
  moreover have "registry_inv self" unfolding assms(1) by (rule inv_run [OF inv_init])
  ultimately show ?thesis using get_latest [of self i] assms(3) by simp
qed

lemma key_100: "semver_key ''1.0.0'' = Inr (Some (1, 0, 0, 1, []))"
  by code_simp

lemma key_v100: "semver_key ''v1.0.0'' = Inr (Some (1, 0, 0, 1, []))"
  by code_simp

lemma key_100_build: "semver_key ''1.0.0+build.5'' = Inr (Some (1, 0, 0, 1, []))"
  by code_simp

lemma key_100_rc:
  "semver_key ''1.0.0-rc.1'' = Inr (Some (1, 0, 0, 0, [Text ''rc'', Numeric 1]))"
  by code_simp

lemma versions_four:
  "versions_of (run fresh [PublishRequest (echo ''1.0.0-rc.1''), PublishRequest (echo ''v1.0.0''),
      PublishRequest (echo ''1.0.0''), PublishRequest (echo ''1.0.0+build.5'')]) ''atomic.echo'' =
   [''1.0.0-rc.1''] @ ''v1.0.0'' # [''1.0.0'', ''1.0.0+build.5'']"
  by (simp add: run_def fresh_def init_def publish_node_type_def echo_def versions_of_def)

lemma earliest_of_equal_keys_example:
  "fst (get_node_type
     (run fresh [PublishRequest (echo ''1.0.0-rc.1''), PublishRequest (echo ''v1.0.0''),
        PublishRequest (echo ''1.0.0''), PublishRequest (echo ''1.0.0+build.5'')])
     ''atomic.echo'' None) = Inr (echo ''v1.0.0'')"
proof -
  let ?self = "run fresh [PublishRequest (echo ''1.0.0-rc.1''), PublishRequest (echo ''v1.0.0''),
        PublishRequest (echo ''1.0.0''), PublishRequest (echo ''1.0.0+build.5'')]"
  have quiet: "\<forall>w \<in> set (versions_of ?self ''atomic.echo''). \<not> raises w"
    unfolding versions_four by (simp add: raises_def key_100 key_v100 key_100_build key_100_rc)
  have top: "\<forall>w \<in> set (versions_of ?self ''atomic.echo''). \<forall>k'.
      semver_key w = Inr (Some k') \<longrightarrow> \<not> key_gt k' (1, 0, 0, 1, [])"
    unfolding versions_four by (auto simp: key_100 key_v100 key_100_build key_100_rc)
  have first: "\<forall>w \<in> set [''1.0.0-rc.1'']. semver_key w \<noteq> Inr (Some (1, 0, 0, 1, []))"
    by (simp add: key_100_rc)
  from earliest_of_equal_keys [OF fresh_run versions_four quiet key_v100 first top]
  obtain nt where "map_of (self_store ?self) (''atomic.echo'', ''v1.0.0'') = Some nt"
    and g: "get_node_type ?self ''atomic.echo'' None = (Inr nt, ?self)" by blast
  moreover have "map_of (self_store ?self) (''atomic.echo'', ''v1.0.0'') = Some (echo ''v1.0.0'')"
    by (simp add: run_def fresh_def init_def publish_node_type_def echo_def versions_of_def)
  ultimately show ?thesis by simp
qed

lemma long_then_equal_versions:
  "versions_of
     (run fresh [PublishRequest (echo (''1.0.0-'' @ long_digits (CHR ''9''))),
                 PublishRequest (echo ''1.0.0''), PublishRequest (echo ''v1.0.0'')])
     ''atomic.echo'' = [''1.0.0-'' @ long_digits (CHR ''9''), ''1.0.0'', ''v1.0.0'']"
  by (simp add: run_def fresh_def init_def publish_node_type_def echo_def versions_of_def
      long_version_other)

text \<open>
  C10. With a version whose prerelease is a run of 4301 nines published first and then
  \<open>1.0.0\<close> and \<open>v1.0.0\<close>, two versions of one key, get without a version returns
  neither: it raises the \<open>ValueError\<close> of \<open>int()\<close>.
\<close>

theorem long_version_before_equal_keys:
  "semver_key ''1.0.0'' = Inr (Some (1, 0, 0, 1, [])) \<and>
   semver_key ''v1.0.0'' = Inr (Some (1, 0, 0, 1, [])) \<and>
   versions_of
     (run fresh [PublishRequest (echo (''1.0.0-'' @ long_digits (CHR ''9''))),
                 PublishRequest (echo ''1.0.0''), PublishRequest (echo ''v1.0.0'')])
     ''atomic.echo'' = [''1.0.0-'' @ long_digits (CHR ''9''), ''1.0.0'', ''v1.0.0''] \<and>
   fst (get_node_type
          (run fresh [PublishRequest (echo (''1.0.0-'' @ long_digits (CHR ''9''))),
                      PublishRequest (echo ''1.0.0''), PublishRequest (echo ''v1.0.0'')])
          ''atomic.echo'' None) = Inl ValueError"
proof -
  have "\<exists>w \<in> set (versions_of
      (run fresh [PublishRequest (echo (''1.0.0-'' @ long_digits (CHR ''9''))),
                  PublishRequest (echo ''1.0.0''), PublishRequest (echo ''v1.0.0'')])
      ''atomic.echo''). raises w"
    unfolding long_then_equal_versions using long_digits_raises [OF nine_is_digit] by simp
  from get_raises [OF this] key_100 key_v100 show ?thesis
    by (simp only: long_then_equal_versions fst_conv simp_thms)
qed

section \<open>Listing\<close>

lemma list_loop_filter: "list_loop q k out vals = out @ filter (keep q k) vals"
proof (induction vals arbitrary: out)
  case Nil
  show ?case by simp
next
  case (Cons a vals)
  show ?case
  proof (cases "keep q k a")
    case True
    then have "list_loop q k out (a # vals) = list_loop q k (out @ [a]) vals"
      unfolding keep_def by auto
    with True Cons show ?thesis by simp
  next
    case False
    then have "list_loop q k out (a # vals) = list_loop q k out vals"
      unfolding keep_def by auto
    with False Cons show ?thesis by simp
  qed
qed

lemma contains_iff: "contains q s \<longleftrightarrow> (\<exists>a b. s = a @ q @ b)"
proof (induction s)
  case Nil
  then show ?case by simp
next
  case (Cons c cs)
  show ?case
  proof
    assume "contains q (c # cs)"
    then consider "prefix q (c # cs)" | "contains q cs" by auto
    then show "\<exists>a b. c # cs = a @ q @ b"
    proof cases
      case 1
      then obtain b where "c # cs = [] @ q @ b" by (auto simp: prefix_def)
      then show ?thesis by blast
    next
      case 2
      with Cons obtain a b where "cs = a @ q @ b" by blast
      then have "c # cs = (c # a) @ q @ b" by simp
      then show ?thesis by blast
    qed
  next
    assume "\<exists>a b. c # cs = a @ q @ b"
    then obtain a b where e: "c # cs = a @ q @ b" by blast
    show "contains q (c # cs)"
    proof (cases a)
      case Nil
      with e have "prefix q (c # cs)" by (simp add: prefix_def)
      then show ?thesis by simp
    next
      case (Cons a0 a')
      with e have "cs = a' @ q @ b" by simp
      with Cons.IH have "contains q cs" by blast
      then show ?thesis by simp
    qed
  qed
qed

lemma dropWhile_all: "(\<forall>x \<in> set (dropWhile P xs). P x) \<longleftrightarrow> (\<forall>x \<in> set xs. P x)"
proof
  assume a: "\<forall>x \<in> set (dropWhile P xs). P x"
  have "dropWhile P xs = []"
  proof (rule ccontr)
    assume ne: "dropWhile P xs \<noteq> []"
    then have "\<not> P (hd (dropWhile P xs))" by (rule hd_dropWhile)
    moreover have "hd (dropWhile P xs) \<in> set (dropWhile P xs)" using ne by (rule hd_in_set)
    ultimately show False using a by blast
  qed
  then show "\<forall>x \<in> set xs. P x" by (simp only: dropWhile_eq_Nil_conv)
next
  assume "\<forall>x \<in> set xs. P x"
  then show "\<forall>x \<in> set (dropWhile P xs). P x" by (blast dest: set_dropWhileD)
qed

lemma strip_empty: "strip s = [] \<longleftrightarrow> list_all isspace s"
proof -
  have "strip s = [] \<longleftrightarrow> dropWhile isspace (rev (dropWhile isspace s)) = []"
    by (simp only: strip_def rev_is_Nil_conv)
  also have "\<dots> \<longleftrightarrow> (\<forall>x \<in> set (dropWhile isspace s). isspace x)"
    by (simp only: dropWhile_eq_Nil_conv set_rev)
  also have "\<dots> \<longleftrightarrow> (\<forall>x \<in> set s. isspace x)" by (rule dropWhile_all)
  finally show ?thesis by (simp only: list_all_iff)
qed

lemma lower_substring:
  "(\<exists>a b. lower s = a @ lower q @ b) \<longleftrightarrow> (\<exists>a u b. s = a @ u @ b \<and> lower u = lower q)"
proof
  assume "\<exists>a b. lower s = a @ lower q @ b"
  then obtain a b where "map lower_char s = a @ (lower q @ b)" by (auto simp: lower_def)
  from this [unfolded map_eq_append_conv]
  obtain a' r where s: "s = a' @ r" and "lower q @ b = map lower_char r" by blast
  from this(2) [symmetric, unfolded map_eq_append_conv]
  obtain u b' where "r = u @ b'" and "lower q = map lower_char u" by blast
  with s have "s = a' @ u @ b' \<and> lower u = lower q" by (simp add: lower_def)
  then show "\<exists>a u b. s = a @ u @ b \<and> lower u = lower q" by blast
next
  assume "\<exists>a u b. s = a @ u @ b \<and> lower u = lower q"
  then obtain a u b where "s = a @ u @ b" and "lower u = lower q" by blast
  then have "lower s = lower a @ lower q @ lower b" by (simp add: lower_def)
  then show "\<exists>a b. lower s = a @ lower q @ b" by blast
qed

lemma isspace_blank: "isspace c = blank c"
  by (auto simp: isspace_def blank_def Let_def)

lemma of_char_lower:
  "of_char (lower_char c) = (if capital c then of_char c + 32 else (of_char c :: nat))"
  by (auto simp: lower_char_def capital_def Let_def)

lemma lower_char_eq: "lower_char a = lower_char b \<longleftrightarrow> same_letter a b"
proof -
  have "lower_char a = lower_char b \<longleftrightarrow>
      (of_char (lower_char a) :: nat) = of_char (lower_char b)" by simp
  also have "\<dots> \<longleftrightarrow> same_letter a b"
    unfolding of_char_lower same_letter_def
    using of_char_eq_iff [of a b, where ?'a = nat]
    by (auto simp: capital_def)
  finally show ?thesis .
qed

lemma lower_eq: "lower u = lower t \<longleftrightarrow> list_all2 same_letter u t"
  unfolding lower_def
proof (induction u arbitrary: t)
  case Nil
  show ?case by auto
next
  case (Cons a u)
  show ?case by (cases t) (auto simp: Cons lower_char_eq)
qed


lemma dropWhile_blank_front:
  assumes "list_all P l" and "t \<noteq> []" and "\<not> P (hd t)"
  shows "dropWhile P (l @ t @ r) = t @ r"
proof -
  have "dropWhile P (l @ t @ r) = dropWhile P (t @ r)"
    using assms(1) by (simp add: list_all_iff dropWhile_append2)
  also have "\<dots> = t @ r" using assms(2,3) by (cases t) simp_all
  finally show ?thesis .
qed

lemma trimmed_strip: "trimmed q t \<longleftrightarrow> t = strip q"
proof
  assume "trimmed q t"
  then obtain l r where q: "q = l @ t @ r" and l: "list_all blank l" and r: "list_all blank r"
    and t: "t = [] \<or> (\<not> blank (hd t) \<and> \<not> blank (last t))"
    unfolding trimmed_def by blast
  have sp: "isspace = blank" by (rule ext) (rule isspace_blank)
  show "t = strip q"
  proof (cases "t = []")
    case True
    with q l r have "list_all isspace q" by (simp add: sp)
    then have "strip q = []" by (simp only: strip_empty)
    with True show ?thesis by simp
  next
    case False
    with t have h: "\<not> blank (hd t)" and e: "\<not> blank (last t)" by simp_all
    have a: "dropWhile blank q = t @ r" unfolding q using l False h by (rule dropWhile_blank_front)
    have "rev t \<noteq> []" "\<not> blank (hd (rev t))" using False e by (simp_all add: hd_rev)
    with r have "dropWhile blank (rev r @ rev t @ []) = rev t @ []"
      by (intro dropWhile_blank_front) (simp_all add: list_all_iff)
    then have "dropWhile blank (rev (t @ r)) = rev t" by simp
    then show ?thesis by (simp add: strip_def sp a)
  qed
next
  assume t: "t = strip q"
  have sp: "isspace = blank" by (rule ext) (rule isspace_blank)
  define d where "d = dropWhile blank q"
  define e where "e = rev d"
  have t': "t = rev (dropWhile blank e)" by (simp add: t strip_def sp e_def d_def)
  have "rev (takeWhile blank e @ dropWhile blank e) =
      rev (dropWhile blank e) @ rev (takeWhile blank e)" by (rule rev_append)
  then have "rev e = t @ rev (takeWhile blank e)"
    by (simp only: takeWhile_dropWhile_id t')
  moreover have "rev e = d" by (simp add: e_def)
  ultimately have d: "d = t @ rev (takeWhile blank e)" by simp
  have "q = takeWhile blank q @ d" by (simp add: d_def)
  then have q: "q = takeWhile blank q @ t @ rev (takeWhile blank e)"
    by (simp only: d [symmetric])
  have l: "list_all blank (takeWhile blank q)"
    by (auto simp: list_all_iff dest: set_takeWhileD)
  have r: "list_all blank (rev (takeWhile blank e))"
    by (auto simp: list_all_iff dest: set_takeWhileD)
  have ends: "t = [] \<or> (\<not> blank (hd t) \<and> \<not> blank (last t))"
  proof (cases "t = []")
    case True
    then show ?thesis by simp
  next
    case False
    then have ne: "dropWhile blank e \<noteq> []" by (simp add: t')
    then have "\<not> blank (hd (dropWhile blank e))" by (rule hd_dropWhile)
    then have last: "\<not> blank (last t)" using ne by (simp add: t' last_rev)
    from False d have "d \<noteq> []" by auto
    then have "\<not> blank (hd d)" unfolding d_def by (rule hd_dropWhile)
    moreover have "hd d = hd t" using False by (subst d) simp
    ultimately show ?thesis using last by simp
  qed
  show "trimmed q t" unfolding trimmed_def using q l r ends by blast
qed

lemma keep_matches:
  "keep (lower (strip (case q_opt of None \<Rightarrow> [] | Some s \<Rightarrow> s))) k nt \<longleftrightarrow> matches q_opt k nt"
proof -
  have kind: "\<not> (k \<noteq> None \<and> Some (kind nt) \<noteq> k) \<longleftrightarrow>
      (case k of None \<Rightarrow> True | Some wanted \<Rightarrow> kind nt = wanted)"
    by (auto split: option.split)
  show ?thesis
  proof (cases q_opt)
    case None
    then show ?thesis using kind by (simp add: keep_def matches_def strip_def lower_def)
  next
    case (Some q)
    have sp: "isspace = blank" by (rule ext) (rule isspace_blank)
    have e: "lower (strip q) = [] \<longleftrightarrow> list_all blank q"
      by (simp add: lower_def strip_empty sp)
    have "(\<exists>a u b. node_type_id nt = a @ u @ b \<and> lower u = lower (strip q)) \<longleftrightarrow>
        (\<exists>t a u b. trimmed q t \<and> node_type_id nt = a @ u @ b \<and> list_all2 same_letter u t)"
      by (auto simp: trimmed_strip lower_eq)
    then have "\<not> (lower (strip q) \<noteq> [] \<and> \<not> contains (lower (strip q)) (lower (node_type_id nt))) \<longleftrightarrow>
        list_all blank q \<or>
        (\<exists>t a u b. trimmed q t \<and> node_type_id nt = a @ u @ b \<and> list_all2 same_letter u t)"
      using e by (auto simp: contains_iff lower_substring)
    with Some kind show ?thesis by (simp add: keep_def matches_def)
  qed
qed

lemma sort_key_Nil_iff: "sort_key f xs = [] \<longleftrightarrow> xs = []"
proof -
  have "length (sort_key f xs) = length xs" by (rule length_sort)
  then show ?thesis by (simp only: length_0_conv [symmetric])
qed

lemma list_node_types_eq:
  fixes self :: "'p NodeRegistry"
  shows "fst (list_node_types self q_opt k) =
      sort_key (\<lambda>nt. (node_type_id nt, version nt))
        (filter (matches q_opt k) (map snd (self_store self)))"
proof -
  have "keep (lower (strip (case q_opt of None \<Rightarrow> [] | Some s \<Rightarrow> s))) k =
      (matches q_opt k :: 'p NodeType \<Rightarrow> bool)"
    by (rule ext) (rule keep_matches)
  then show ?thesis by (simp add: list_node_types_def Let_def list_loop_filter)
qed

text \<open>
  list returns a list and leaves the registry as it was. Over the strings of the model,
  those of code points below 256, the list holds exactly the stored NodeTypes that
  match the query and the kind, each as often as the store holds it; it is sorted
  ascending by the pair (node\_type\_id, version) under the comparison of strings by
  code points; and it is empty exactly when no stored NodeType matches.
\<close>

lemma list_node_types_result:
  fixes self :: "'p NodeRegistry"
  shows "snd (list_node_types self q_opt k) = self \<and>
   mset (fst (list_node_types self q_opt k)) =
     filter_mset (matches q_opt k) (mset (map snd (self_store self))) \<and>
   sorted (map (\<lambda>nt. (node_type_id nt, version nt)) (fst (list_node_types self q_opt k))) \<and>
   (fst (list_node_types self q_opt k) = [] \<longleftrightarrow>
      (\<forall>nt \<in> set (map snd (self_store self)). \<not> matches q_opt k nt))"
proof (intro conjI)
  show "snd (list_node_types self q_opt k) = self" by (rule snd_list_node_types)
  show "mset (fst (list_node_types self q_opt k)) =
     filter_mset (matches q_opt k) (mset (map snd (self_store self)))"
    unfolding list_node_types_eq by (simp only: mset_sort mset_filter)
  show "sorted (map (\<lambda>nt. (node_type_id nt, version nt)) (fst (list_node_types self q_opt k)))"
    unfolding list_node_types_eq by (rule sorted_sort_key)
  show "fst (list_node_types self q_opt k) = [] \<longleftrightarrow>
      (\<forall>nt \<in> set (map snd (self_store self)). \<not> matches q_opt k nt)"
    unfolding list_node_types_eq sort_key_Nil_iff by (simp only: filter_empty_conv)
qed

lemma two_store:
  "map snd (self_store (run fresh [PublishRequest foo_baz, PublishRequest foo_bar])) =
     [foo_baz, foo_bar]"
  by (simp add: run_def fresh_def init_def publish_node_type_def foo_bar_def foo_baz_def
      versions_of_def)

lemma matches_bar:
  "matches (Some '' BAR  '') None foo_bar" "\<not> matches (Some '' BAR  '') None foo_baz"
  "\<not> matches (Some ''zzz'') None foo_bar" "\<not> matches (Some ''zzz'') None foo_baz"
  "matches (Some ''foo.b'') (Some atomic) foo_bar"
  "\<not> matches (Some ''foo.b'') (Some atomic) foo_baz"
  unfolding keep_matches [symmetric] by code_simp+

text \<open>
  With \<open>foo.baz\<close>, a composite, published before \<open>foo.bar\<close>, an atomic: the query
  \<open>BAR\<close> between blanks lists the second only, the query \<open>zzz\<close> lists nothing, the
  query \<open>foo.b\<close> with the kind atomic lists the second only, and the empty query
  lists both, \<open>foo.bar\<close> first.
\<close>

lemma list_node_types_example:
  "fst (list_node_types (run fresh [PublishRequest foo_baz, PublishRequest foo_bar])
      (Some '' BAR  '') None) = [foo_bar] \<and>
   fst (list_node_types (run fresh [PublishRequest foo_baz, PublishRequest foo_bar])
      (Some ''zzz'') None) = [] \<and>
   fst (list_node_types (run fresh [PublishRequest foo_baz, PublishRequest foo_bar])
      (Some ''foo.b'') (Some atomic)) = [foo_bar] \<and>
   fst (list_node_types (run fresh [PublishRequest foo_baz, PublishRequest foo_bar])
      (Some []) None) = [foo_bar, foo_baz]"
proof -
  let ?self = "run fresh [PublishRequest foo_baz, PublishRequest foo_bar]"
  have m: "mset (fst (list_node_types ?self q k)) =
      filter_mset (matches q k) (mset (map snd (self_store ?self)))" for q k
    using list_node_types_result [of ?self q k] by blast
  have "mset (fst (list_node_types ?self (Some '' BAR  '') None)) = {#foo_bar#}"
    unfolding m two_store by (simp add: matches_bar)
  moreover have "mset (fst (list_node_types ?self (Some ''zzz'') None)) = {#}"
    unfolding m two_store by (simp add: matches_bar)
  moreover have "mset (fst (list_node_types ?self (Some ''foo.b'') (Some atomic))) = {#foo_bar#}"
    unfolding m two_store by (simp add: matches_bar)
  moreover have "fst (list_node_types ?self (Some []) None) = [foo_bar, foo_baz]"
    by code_simp
  ultimately show ?thesis by simp
qed

text \<open>
  C7. The model ends at code point 255, and so does the result above. Beyond it
  \<open>str.lower\<close> is not a change of single characters: it writes the capital sigma, code
  point 931, as the final small sigma, 962, after a letter at the end of a word and as
  the small sigma, 963, elsewhere. So \<open>lower\<close> of the query made of the one character
  931 is the character 963, \<open>lower\<close> of the id made of the characters 913 and 931 is
  made of 945 and 962, the first is no piece of the second, and list leaves out a
  NodeType whose id holds the query as it is written.
\<close>

section \<open>The latest version among versions that match the pattern\<close>

text \<open>
  The comparison of keys is the one the specification describes: major, minor and patch
  as numbers; at equal numbers a key without prerelease above one with; prerelease parts
  from the left, a number below a text, numbers as numbers, texts as strings, and a
  proper prefix below what extends it.
\<close>

lemma key_gt_rules:
  "a1 > a2 \<Longrightarrow> key_gt (a1, b1, c1, r1, p1) (a2, b2, c2, r2, p2)"
  "b1 > b2 \<Longrightarrow> key_gt (a, b1, c1, r1, p1) (a, b2, c2, r2, p2)"
  "c1 > c2 \<Longrightarrow> key_gt (a, b, c1, r1, p1) (a, b, c2, r2, p2)"
  "key_gt (a, b, c, 1, []) (a, b, c, 0, p)"
  "key_gt (a, b, c, 0, p1) (a, b, c, 0, p2) \<longleftrightarrow> parts_gt p1 p2"
  by simp_all

lemma parts_gt_rules:
  "parts_gt (Text s # xs) (Numeric n # ys)"
  "\<not> parts_gt (Numeric n # xs) (Text s # ys)"
  "parts_gt (Numeric m # xs) (Numeric n # ys) \<longleftrightarrow> m > n \<or> (m = n \<and> parts_gt xs ys)"
  "parts_gt (Text s # xs) (Text t # ys) \<longleftrightarrow> s > t \<or> (s = t \<and> parts_gt xs ys)"
  "parts_gt (xs @ y # ys) xs"
  "\<not> parts_gt xs (xs @ ys)"
proof -
  show "parts_gt (xs @ y # ys) xs" by (induction xs) simp_all
  show "\<not> parts_gt xs (xs @ ys)" by (induction xs) simp_all
qed (auto simp: tag_def)

lemma get_latest_semver:
  assumes "registry_inv self" and "keyed (versions_of self i) \<noteq> []"
    and "\<forall>w \<in> set (versions_of self i). \<not> raises w"
  shows "\<exists>nt v k. get_node_type self i None = (Inr nt, self) \<and>
     map_of (self_store self) (i, v) = Some nt \<and>
     v \<in> set (versions_of self i) \<and> key_of v = Some k \<and>
     (\<forall>w \<in> set (versions_of self i). \<forall>k'. key_of w = Some k' \<longrightarrow> \<not> key_gt k' k)"
proof -
  let ?vs = "versions_of self i"
  from latest_semver [OF assms(2)] obtain pre post k where
    s: "?vs = pre @ latest_of ?vs # post" and k: "key_of (latest_of ?vs) = Some k"
    and lt: "\<forall>w \<in> set pre. \<forall>k'. key_of w = Some k' \<longrightarrow> key_gt k k'"
    and le: "\<forall>w \<in> set post. \<forall>k'. key_of w = Some k' \<longrightarrow> \<not> key_gt k' k"
    by blast
  have top: "\<forall>w \<in> set ?vs. \<forall>k'. key_of w = Some k' \<longrightarrow> \<not> key_gt k' k"
  proof (intro ballI allI impI)
    fix w k' assume w: "w \<in> set ?vs" and k': "key_of w = Some k'"
    from w have "w \<in> set pre \<or> w = latest_of ?vs \<or> w \<in> set post"
      by (subst (asm) s) auto
    then show "\<not> key_gt k' k"
    proof (elim disjE)
      assume "w \<in> set pre"
      with lt k' have "key_gt k k'" by blast
      then show ?thesis by (simp add: key_gt_rank)
    next
      assume "w = latest_of ?vs"
      with k k' show ?thesis by (simp add: key_gt_irrefl)
    next
      assume "w \<in> set post"
      with le k' show ?thesis by blast
    qed
  qed
  have ne: "?vs \<noteq> []" using assms(2) by (auto simp: keyed_Nil)
  from get_latest [OF assms(1) ne assms(3)] obtain nt where
    "map_of (self_store self) (i, latest_of ?vs) = Some nt"
    "get_node_type self i None = (Inr nt, self)" by blast
  moreover have "latest_of ?vs \<in> set ?vs" using ne by (rule latest_in)
  ultimately show ?thesis using k top by blast
qed

lemma get_latest_fallback:
  assumes "registry_inv self" and "versions_of self i \<noteq> []"
    and "keyed (versions_of self i) = []"
    and "\<forall>w \<in> set (versions_of self i). \<not> raises w"
  shows "\<exists>nt. get_node_type self i None = (Inr nt, self) \<and>
     map_of (self_store self) (i, Max (set (versions_of self i))) = Some nt"
  using get_latest [OF assms(1,2,4)] latest_fallback [OF assms(2,3)] by auto

text \<open>
  On versions none of which ends in a newline and for each of which \<open>_semver_key\<close>
  returns, the code's reading and the specification's form agree, and get without a
  version returns what the specification says: the greatest of the versions of the
  form, and the greatest string when there is none.
\<close>

lemma get_latest_semver_form:
  assumes "registry_inv self"
    and "\<forall>w \<in> set (versions_of self i). w = [] \<or> last w \<noteq> CHR 0x0A"
    and "\<exists>w \<in> set (versions_of self i). is_semantic_version w"
    and "\<forall>w \<in> set (versions_of self i). \<not> raises w"
  shows "\<exists>nt v k. get_node_type self i None = (Inr nt, self) \<and>
     map_of (self_store self) (i, v) = Some nt \<and>
     v \<in> set (versions_of self i) \<and> is_semantic_version v \<and> key_of v = Some k \<and>
     (\<forall>w \<in> set (versions_of self i). is_semantic_version w \<longrightarrow>
        (\<exists>k'. key_of w = Some k' \<and> \<not> key_gt k' k))"
proof -
  from assms(3) obtain w where w: "w \<in> set (versions_of self i)" "is_semantic_version w" by blast
  then obtain kw where "key_of w = Some kw" using key_of_accepts [of w] by auto
  with w(1) have "(w, kw) \<in> set (keyed (versions_of self i))"
    by (simp add: keyed_set)
  then have "keyed (versions_of self i) \<noteq> []" by auto
  from get_latest_semver [OF assms(1) this assms(4)] obtain nt v k where
    g: "get_node_type self i None = (Inr nt, self)" "map_of (self_store self) (i, v) = Some nt"
    and v: "v \<in> set (versions_of self i)" "key_of v = Some k"
    and top: "\<forall>w \<in> set (versions_of self i). \<forall>k'. key_of w = Some k' \<longrightarrow> \<not> key_gt k' k"
    by blast
  have "is_semantic_version v"
    using v assms(2) key_of_no_newline [of v] by auto
  moreover have "\<forall>w \<in> set (versions_of self i). is_semantic_version w \<longrightarrow>
        (\<exists>k'. key_of w = Some k' \<and> \<not> key_gt k' k)"
  proof (intro ballI impI)
    fix u assume u: "u \<in> set (versions_of self i)" "is_semantic_version u"
    then obtain k' where "key_of u = Some k'" using key_of_accepts [of u] by auto
    with top u(1) show "\<exists>k'. key_of u = Some k' \<and> \<not> key_gt k' k" by blast
  qed
  ultimately show ?thesis using g v by blast
qed

lemma get_latest_fallback_form:
  assumes "registry_inv self" and "versions_of self i \<noteq> []"
    and "\<forall>w \<in> set (versions_of self i). w = [] \<or> last w \<noteq> CHR 0x0A"
    and "\<forall>w \<in> set (versions_of self i). \<not> is_semantic_version w"
    and "\<forall>w \<in> set (versions_of self i). \<not> raises w"
  shows "\<exists>nt. get_node_type self i None = (Inr nt, self) \<and>
     map_of (self_store self) (i, Max (set (versions_of self i))) = Some nt"
proof -
  have "\<forall>w \<in> set (versions_of self i). key_of w = None"
    using assms(3,4) key_of_no_newline by blast
  then have "set (keyed (versions_of self i)) = {}"
    by (auto simp: keyed_set)
  then have "keyed (versions_of self i) = []" by simp
  with assms(1,2) show ?thesis using assms(5) by (rule get_latest_fallback)
qed

text \<open>
  C1. What the code takes for a semantic version is decided by \<open>_SEMVER_RE\<close>, whose
  final \<open>$\<close> also matches before a newline that ends the string. A version that is a
  semantic version followed by a newline is not of the form the specification gives,
  and the code compares it all the same: with \<open>0.1.0\<close> and \<open>1.0.0\<close> followed by a
  newline published, the only version of the form is \<open>0.1.0\<close>, and get without a
  version returns the other.
\<close>

theorem newline_version_taken_for_semver:
  "is_semantic_version ''0.1.0'' \<and>
   \<not> is_semantic_version (''1.0.0'' @ [CHR 0x0A]) \<and>
   fst (get_node_type
          (run fresh [PublishRequest (echo ''0.1.0''),
                      PublishRequest (echo (''1.0.0'' @ [CHR 0x0A]))])
          ''atomic.echo'' None) =
     Inr (echo (''1.0.0'' @ [CHR 0x0A]))"
  by code_simp

section \<open>The latest version when no version matches the pattern\<close>

text \<open>
  C6. With \<open>release-a\<close> and \<open>1.0.0\<close> followed by a newline published, no version is of
  the form the specification gives and the greatest string is \<open>release-a\<close>; the code
  takes the second for a semantic version and returns it.
\<close>

theorem newline_version_skips_fallback:
  "\<not> is_semantic_version ''release-a'' \<and>
   \<not> is_semantic_version (''1.0.0'' @ [CHR 0x0A]) \<and>
   ''1.0.0'' @ [CHR 0x0A] < ''release-a'' \<and>
   fst (get_node_type
          (run fresh [PublishRequest (echo ''release-a''),
                      PublishRequest (echo (''1.0.0'' @ [CHR 0x0A]))])
          ''atomic.echo'' None) =
     Inr (echo (''1.0.0'' @ [CHR 0x0A]))"
  by code_simp

end
